theory Spec2Isabelle
  imports Main
begin

section \<open>The VenePagos SDK (src/index.js) as a state machine\<close>

text \<open>
  The class \<^verbatim>\<open>VenePagosSDK\<close> keeps a registry of open payment windows
  (\<^verbatim>\<open>activePaymentWindows\<close>, a JavaScript Map, which iterates in insertion order) and a
  list of event subscriptions (\<^verbatim>\<open>eventListeners\<close>). Its handlers run one at a time
  on the browser's event loop, so each handler is a function from the state before to the
  state after. The parts of the browser that the handlers read or write are fields of
  the same state: which windows are closed, the \<^verbatim>\<open>localStorage\<close>, the active
  \<^verbatim>\<open>setInterval\<close> and pending \<^verbatim>\<open>setTimeout\<close> callbacks, and three logs
  (the calls made to the \<^verbatim>\<open>resolve\<close>/\<^verbatim>\<open>reject\<close> functions of the promises, the
  subscriber callbacks invoked, and what was written with \<^verbatim>\<open>console.error\<close>).
  The HTTP methods (\<^verbatim>\<open>createPaymentLink\<close> and the like) and the static formatting
  utilities touch none of this state and are not modelled.
\<close>

subsection \<open>JavaScript values\<close>

text \<open>A value passed as \<^verbatim>\<open>callback\<close>; only \<open>JFunction\<close> has \<^verbatim>\<open>typeof\<close>
  equal to \<^verbatim>\<open>'function'\<close>. Functions are compared by identity (\<^verbatim>\<open>===\<close>), which is
  the number here.\<close>

datatype jsval =
    JUndefined | JNull | JBool bool | JNumber int | JString string | JObject nat
  | JFunction nat

fun isFunction :: "jsval \<Rightarrow> bool" where
  "isFunction (JFunction f) = True"
| "isFunction v = False"

text \<open>The \<^verbatim>\<open>data\<close> member of a notification: missing (\<^verbatim>\<open>undefined\<close>), \<^verbatim>\<open>null\<close>,
  or an object whose \<^verbatim>\<open>reference\<close> and \<^verbatim>\<open>error\<close> members are strings or
  missing (the \<^verbatim>\<open>PaymentEventData\<close> of index.d.ts).\<close>

datatype jsdata = Undefined | Null | Obj (dReference: "string option") (dError: "string option")

datatype jserror = Error string | TypeError

text \<open>Reading a member of \<^verbatim>\<open>undefined\<close> or \<^verbatim>\<open>null\<close> throws a TypeError.\<close>

fun getReference :: "jsdata \<Rightarrow> jserror + string option" where
  "getReference (Obj r e) = Inr r"
| "getReference d = Inl TypeError"

fun getError :: "jsdata \<Rightarrow> jserror + string option" where
  "getError (Obj r e) = Inr e"
| "getError d = Inl TypeError"

text \<open>Truthiness of a value that is a string or missing: the empty string is falsy.\<close>

fun truthy :: "string option \<Rightarrow> bool" where
  "truthy None = False"
| "truthy (Some v) = (v \<noteq> [])"

text \<open>\<^verbatim>\<open>s.includes(sub)\<close> and \<^verbatim>\<open>s.startsWith(sub)\<close>.\<close>

definition startsWith :: "string \<Rightarrow> string \<Rightarrow> bool" where
  "startsWith s sub = (take (length sub) s = sub)"

fun str_includes :: "string \<Rightarrow> string \<Rightarrow> bool" where
  "str_includes [] sub = (sub = [])"
| "str_includes (c # cs) sub = (startsWith (c # cs) sub \<or> str_includes cs sub)"

subsection \<open>The state\<close>

text \<open>The value a payment promise is resolved with. \<open>closedManually\<close> and \<open>data\<close> are
  \<open>None\<close> where the object literal has no such member.\<close>

record payment_result =
  success :: bool
  reference :: "string option"
  status :: string
  closedManually :: "bool option"
  data :: "jsdata option"

datatype settlement = Resolved payment_result | Rejected jserror

text \<open>An entry of \<^verbatim>\<open>activePaymentWindows\<close>. \<open>window\<close> is the handle that
  \<^verbatim>\<open>window.open\<close> returned; \<open>resolve\<close> and \<open>reject\<close> are the two functions of the
  promise created by the call, each given as the number of that promise.\<close>

record entry =
  window :: nat
  resolve :: nat
  reject :: nat
  url :: string
  timestamp :: nat

record listener =
  event :: string
  callback :: jsval

text \<open>What the two timer callbacks of one \<^verbatim>\<open>openPaymentPopup\<close> call close over:
  \<^verbatim>\<open>paymentId\<close>, \<^verbatim>\<open>popup\<close> and the \<^verbatim>\<open>resolve\<close>/\<^verbatim>\<open>reject\<close> pair of the promise.\<close>

record closure =
  cPaymentId :: string
  cPopup :: nat
  cPromise :: nat

record sdk =
  apiKey :: string
  baseUrl :: string
  sandbox :: bool
  activePaymentWindows :: "(string \<times> entry) list"
  eventListeners :: "listener list"
  messageHandlerAttached :: bool
  closedWindows :: "nat set"
  localStorage :: "(string \<times> string) list"
  pollers :: "closure list"
  deadlines :: "closure list"
  nextPromise :: nat
  settlements :: "(nat \<times> settlement) list"
  invoked :: "(nat \<times> jsdata) list"
  console :: "jserror list"

text \<open>A method either returns or throws; both leave a state behind.\<close>

datatype completion = Returned sdk | Threw jserror sdk

fun stateOf :: "completion \<Rightarrow> sdk" where
  "stateOf (Returned s) = s"
| "stateOf (Threw e s) = s"

subsection \<open>Map, localStorage, promises, timers\<close>

fun mapSet :: "'k \<Rightarrow> 'v \<Rightarrow> ('k \<times> 'v) list \<Rightarrow> ('k \<times> 'v) list" where
  "mapSet k v [] = [(k, v)]"
| "mapSet k v (kv # m) = (if fst kv = k then (k, v) # m else kv # mapSet k v m)"

definition mapGet :: "('k \<times> 'v) list \<Rightarrow> 'k \<Rightarrow> 'v option" where
  "mapGet m k = map_of m k"

definition mapHas :: "('k \<times> 'v) list \<Rightarrow> 'k \<Rightarrow> bool" where
  "mapHas m k = (k \<in> fst ` set m)"

definition mapDelete :: "'k \<Rightarrow> ('k \<times> 'v) list \<Rightarrow> ('k \<times> 'v) list" where
  "mapDelete k m = filter (\<lambda>kv. fst kv \<noteq> k) m"

definition getItem :: "sdk \<Rightarrow> string \<Rightarrow> string option" where
  "getItem s k = map_of (localStorage s) k"

definition removeItem :: "string \<Rightarrow> sdk \<Rightarrow> sdk" where
  "removeItem k s = s\<lparr>localStorage := filter (\<lambda>kv. fst kv \<noteq> k) (localStorage s)\<rparr>"

definition setItem :: "string \<Rightarrow> string \<Rightarrow> sdk \<Rightarrow> sdk" where
  "setItem k v s = s\<lparr>localStorage := mapSet k v (localStorage s)\<rparr>"

text \<open>Calling \<^verbatim>\<open>resolve(v)\<close> or \<^verbatim>\<open>reject(e)\<close> of promise \<open>p\<close> is recorded in the
  log. A promise takes the value of the first call made on it; later calls are ignored
  by the JavaScript engine.\<close>

definition callResolve :: "nat \<Rightarrow> payment_result \<Rightarrow> sdk \<Rightarrow> sdk" where
  "callResolve p v s = s\<lparr>settlements := settlements s @ [(p, Resolved v)]\<rparr>"

definition callReject :: "nat \<Rightarrow> jserror \<Rightarrow> sdk \<Rightarrow> sdk" where
  "callReject p e s = s\<lparr>settlements := settlements s @ [(p, Rejected e)]\<rparr>"

definition settlementOf :: "sdk \<Rightarrow> nat \<Rightarrow> settlement option" where
  "settlementOf s p = map_of (settlements s) p"

definition attempts :: "sdk \<Rightarrow> nat \<Rightarrow> nat" where
  "attempts s p = length (filter (\<lambda>x. fst x = p) (settlements s))"

definition clearInterval :: "closure \<Rightarrow> sdk \<Rightarrow> sdk" where
  "clearInterval c s = s\<lparr>pollers := filter (\<lambda>x. x \<noteq> c) (pollers s)\<rparr>"

definition windowClose :: "nat \<Rightarrow> sdk \<Rightarrow> sdk" where
  "windowClose w s = s\<lparr>closedWindows := insert w (closedWindows s)\<rparr>"

subsection \<open>The messages of the source\<close>

text \<open>The accented letters of the source are written as their UTF-8 bytes.\<close>

definition popupBlockedMsg :: string where
  "popupBlockedMsg = ''No se pudo abrir la ventana emergente. Verifica que las ventanas emergentes est''
     @ [CHR 0xC3, CHR 0xA9] @ ''n habilitadas.''"

definition userClosedMsg :: string where
  "userClosedMsg = ''Ventana de pago cerrada por el usuario''"

definition timeoutMsg :: string where
  "timeoutMsg = ''Timeout: El pago excedi'' @ [CHR 0xC3, CHR 0xB3] @ '' el tiempo l''
     @ [CHR 0xC3, CHR 0xAD] @ ''mite''"

definition callbackMsg :: string where
  "callbackMsg = ''El callback debe ser una funci'' @ [CHR 0xC3, CHR 0xB3] @ ''n''"

definition paymentErrorMsg :: string where
  "paymentErrorMsg = ''Error en el pago''"

definition cancelledMsg :: string where
  "cancelledMsg = ''Pago cancelado por el usuario''"

subsection \<open>constructor\<close>

record config =
  cfgApiKey :: "string option"
  cfgBaseUrl :: "string option"
  cfgSandbox :: "bool option"

text \<open>The constructor, given the configuration (\<open>None\<close> when the argument is missing) and
  the browser state it starts in. It attaches the message handler.\<close>

definition constructor :: "config option \<Rightarrow> nat set \<Rightarrow> (string \<times> string) list \<Rightarrow> jserror + sdk" where
  "constructor cfg closed storage =
     (case cfg of
        None \<Rightarrow> Inl (Error ''API Key es requerido para inicializar VenePagos SDK'')
      | Some c \<Rightarrow>
          if \<not> truthy (cfgApiKey c)
          then Inl (Error ''API Key es requerido para inicializar VenePagos SDK'')
          else if \<not> startsWith (the (cfgApiKey c)) ''vp_''
          then Inl (Error (''API Key debe comenzar con '' @ [CHR 0x22] @ ''vp_'' @ [CHR 0x22]))
          else Inr \<lparr> apiKey = the (cfgApiKey c),
                     baseUrl = (if truthy (cfgBaseUrl c) then the (cfgBaseUrl c)
                                else ''https://venepagos.com.ve''),
                     sandbox = (case cfgSandbox c of None \<Rightarrow> False | Some b \<Rightarrow> b),
                     activePaymentWindows = [],
                     eventListeners = [],
                     messageHandlerAttached = True,
                     closedWindows = closed,
                     localStorage = storage,
                     pollers = [],
                     deadlines = [],
                     nextPromise = 0,
                     settlements = [],
                     invoked = [],
                     console = [] \<rparr>)"

subsection \<open>openPaymentPopup and its two timers\<close>

text \<open>
  The executor of the promise that \<^verbatim>\<open>openPaymentPopup\<close> returns runs synchronously.
  Its inputs from the browser are parameters: \<open>popup\<close> is what \<^verbatim>\<open>window.open\<close>
  returned (\<open>None\<close> for \<^verbatim>\<open>null\<close>, a blocked popup), \<open>paymentId\<close> what
  \<^verbatim>\<open>_generatePaymentId()\<close> returned (built from \<^verbatim>\<open>Date.now()\<close> and
  \<^verbatim>\<open>Math.random()\<close>), \<open>now\<close> the \<^verbatim>\<open>Date.now()\<close> of the entry. The window
  geometry only feeds the feature string given to \<^verbatim>\<open>window.open\<close>. The new promise
  gets the next free number.
\<close>

definition openPaymentPopup :: "string \<Rightarrow> nat option \<Rightarrow> string \<Rightarrow> nat \<Rightarrow> sdk \<Rightarrow> sdk" where
  "openPaymentPopup paymentUrl popup paymentId now s =
     (let p = nextPromise s;
          s0 = s\<lparr>nextPromise := Suc p\<rparr>
      in case popup of
           None \<Rightarrow> callReject p (Error popupBlockedMsg) s0
         | Some w \<Rightarrow>
             (let c = \<lparr>cPaymentId = paymentId, cPopup = w, cPromise = p\<rparr>;
                  s1 = s0\<lparr>activePaymentWindows :=
                           mapSet paymentId
                             \<lparr>window = w, resolve = p, reject = p, url = paymentUrl, timestamp = now\<rparr>
                             (activePaymentWindows s0)\<rparr>;
                  s2 = s1\<lparr>pollers := pollers s1 @ [c]\<rparr>
              in s2\<lparr>deadlines := deadlines s2 @ [c]\<rparr>))"

text \<open>The body of the \<^verbatim>\<open>setInterval\<close> callback \<^verbatim>\<open>checkClosed\<close> (every second).\<close>

definition checkClosed :: "closure \<Rightarrow> sdk \<Rightarrow> sdk" where
  "checkClosed c s =
     (if cPopup c \<in> closedWindows s then
        (let s1 = clearInterval c s
         in case mapGet (activePaymentWindows s1) (cPaymentId c) of
              None \<Rightarrow> s1
            | Some paymentData \<Rightarrow>
                (let s2 = s1\<lparr>activePaymentWindows := mapDelete (cPaymentId c) (activePaymentWindows s1)\<rparr>;
                     savedReference = getItem s2 ''lastPaymentReference''
                 in if truthy savedReference
                    then callResolve (cPromise c)
                           \<lparr>success = True, reference = savedReference, status = ''completed'',
                            closedManually = Some True, data = None\<rparr>
                           (removeItem ''lastPaymentReference'' s2)
                    else callReject (cPromise c) (Error userClosedMsg) s2))
      else s)"

text \<open>The body of the \<^verbatim>\<open>setTimeout\<close> callback (after 30 minutes).\<close>

definition deadlineTimeout :: "closure \<Rightarrow> sdk \<Rightarrow> sdk" where
  "deadlineTimeout c s =
     (if mapHas (activePaymentWindows s) (cPaymentId c) then
        (let s1 = clearInterval c s;
             s2 = windowClose (cPopup c) s1;
             s3 = s2\<lparr>activePaymentWindows := mapDelete (cPaymentId c) (activePaymentWindows s2)\<rparr>
         in callReject (cPromise c) (Error timeoutMsg) s3)
      else s)"

subsection \<open>on, off, closeAllPaymentWindows, destroy\<close>

definition on :: "string \<Rightarrow> jsval \<Rightarrow> sdk \<Rightarrow> completion" where
  "on ev cb s =
     (if \<not> isFunction cb then Threw (Error callbackMsg) s
      else Returned (s\<lparr>eventListeners := eventListeners s @ [\<lparr>event = ev, callback = cb\<rparr>]\<rparr>))"

definition off :: "string \<Rightarrow> jsval \<Rightarrow> sdk \<Rightarrow> sdk" where
  "off ev cb s =
     s\<lparr>eventListeners :=
         filter (\<lambda>listener. \<not> (event listener = ev \<and> callback listener = cb)) (eventListeners s)\<rparr>"

text \<open>\<^verbatim>\<open>forEach\<close> over the registry, closing each window that is not closed yet.\<close>

fun forEachClose :: "(string \<times> entry) list \<Rightarrow> sdk \<Rightarrow> sdk" where
  "forEachClose [] s = s"
| "forEachClose (kv # rest) s =
     forEachClose rest
       (if window (snd kv) \<notin> closedWindows s then windowClose (window (snd kv)) s else s)"

definition closeAllPaymentWindows :: "sdk \<Rightarrow> sdk" where
  "closeAllPaymentWindows s =
     (let s1 = forEachClose (activePaymentWindows s) s
      in s1\<lparr>activePaymentWindows := []\<rparr>)"

definition destroy :: "sdk \<Rightarrow> sdk" where
  "destroy s =
     (let s1 = closeAllPaymentWindows s;
          s2 = (if messageHandlerAttached s1 then s1\<lparr>messageHandlerAttached := False\<rparr> else s1);
          s3 = s2\<lparr>eventListeners := []\<rparr>
      in s3\<lparr>activePaymentWindows := []\<rparr>)"

subsection \<open>The event bus: \_emitEvent\<close>

text \<open>
  What a subscriber function does when called is given by \<open>beh\<close>: \<open>beh f d\<close> is
  \<open>None\<close> when function \<open>f\<close> returns on argument \<open>d\<close>, and \<open>Some e\<close> when it throws
  \<open>e\<close>. Calling a value that is not a function throws a TypeError. A subscriber is
  taken not to call back into the SDK.
\<close>

definition callCallback :: "(nat \<Rightarrow> jsdata \<Rightarrow> jserror option) \<Rightarrow> jsval \<Rightarrow> jsdata \<Rightarrow> sdk \<Rightarrow> completion" where
  "callCallback beh cb d s =
     (case cb of
        JFunction f \<Rightarrow>
          (let s1 = s\<lparr>invoked := invoked s @ [(f, d)]\<rparr>
           in case beh f d of None \<Rightarrow> Returned s1 | Some e \<Rightarrow> Threw e s1)
      | _ \<Rightarrow> Threw TypeError s)"

text \<open>The \<^verbatim>\<open>try { listener.callback(data) } catch (error) { console.error(...) }\<close>.\<close>

definition tryCallback :: "(nat \<Rightarrow> jsdata \<Rightarrow> jserror option) \<Rightarrow> listener \<Rightarrow> jsdata \<Rightarrow> sdk \<Rightarrow> completion" where
  "tryCallback beh l d s =
     (case callCallback beh (callback l) d s of
        Returned s1 \<Rightarrow> Returned s1
      | Threw e s1 \<Rightarrow> Returned (s1\<lparr>console := console s1 @ [e]\<rparr>))"

fun forEachListener :: "(nat \<Rightarrow> jsdata \<Rightarrow> jserror option) \<Rightarrow> listener list \<Rightarrow> jsdata \<Rightarrow> sdk \<Rightarrow> completion" where
  "forEachListener beh [] d s = Returned s"
| "forEachListener beh (l # ls) d s =
     (case tryCallback beh l d s of
        Threw e s1 \<Rightarrow> Threw e s1
      | Returned s1 \<Rightarrow> forEachListener beh ls d s1)"

definition emitEvent :: "(nat \<Rightarrow> jsdata \<Rightarrow> jserror option) \<Rightarrow> string \<Rightarrow> jsdata \<Rightarrow> sdk \<Rightarrow> completion" where
  "emitEvent beh ev d s =
     forEachListener beh (filter (\<lambda>listener. event listener = ev) (eventListeners s)) d s"

subsection \<open>The message handlers\<close>

text \<open>
  \<^verbatim>\<open>activePaymentWindows.forEach\<close> visits the entries in insertion order; deleting the
  entry being visited does not disturb the iteration. Every entry has its \<^verbatim>\<open>resolve\<close>
  and \<^verbatim>\<open>reject\<close>, so the tests \<^verbatim>\<open>if (paymentData.resolve)\<close> and
  \<^verbatim>\<open>if (paymentData.reject)\<close> succeed. The argument of \<^verbatim>\<open>resolve\<close> (of
  \<^verbatim>\<open>reject\<close>) is evaluated before the call, and reading \<^verbatim>\<open>data.reference\<close>
  (\<^verbatim>\<open>data.error\<close>) may throw.
\<close>

fun forEachSuccess :: "jsdata \<Rightarrow> (string \<times> entry) list \<Rightarrow> sdk \<Rightarrow> completion" where
  "forEachSuccess d [] s = Returned s"
| "forEachSuccess d (kv # rest) s =
     (case getReference d of
        Inl e \<Rightarrow> Threw e s
      | Inr r \<Rightarrow>
          forEachSuccess d rest
            ((callResolve (resolve (snd kv))
                \<lparr>success = True, reference = r, status = ''completed'',
                 closedManually = None, data = Some d\<rparr> s)
             \<lparr>activePaymentWindows := mapDelete (fst kv) (activePaymentWindows s)\<rparr>))"

definition handlePaymentSuccess :: "(nat \<Rightarrow> jsdata \<Rightarrow> jserror option) \<Rightarrow> jsdata \<Rightarrow> sdk \<Rightarrow> completion" where
  "handlePaymentSuccess beh d s =
     (case emitEvent beh ''success'' d s of
        Threw e s1 \<Rightarrow> Threw e s1
      | Returned s1 \<Rightarrow> forEachSuccess d (activePaymentWindows s1) s1)"

fun forEachError :: "jsdata \<Rightarrow> (string \<times> entry) list \<Rightarrow> sdk \<Rightarrow> completion" where
  "forEachError d [] s = Returned s"
| "forEachError d (kv # rest) s =
     (case getError d of
        Inl e \<Rightarrow> Threw e s
      | Inr m \<Rightarrow>
          forEachError d rest
            ((callReject (reject (snd kv))
                (Error (if truthy m then the m else paymentErrorMsg)) s)
             \<lparr>activePaymentWindows := mapDelete (fst kv) (activePaymentWindows s)\<rparr>))"

definition handlePaymentError :: "(nat \<Rightarrow> jsdata \<Rightarrow> jserror option) \<Rightarrow> jsdata \<Rightarrow> sdk \<Rightarrow> completion" where
  "handlePaymentError beh d s =
     (case emitEvent beh ''error'' d s of
        Threw e s1 \<Rightarrow> Threw e s1
      | Returned s1 \<Rightarrow> forEachError d (activePaymentWindows s1) s1)"

fun forEachCancel :: "(string \<times> entry) list \<Rightarrow> sdk \<Rightarrow> completion" where
  "forEachCancel [] s = Returned s"
| "forEachCancel (kv # rest) s =
     forEachCancel rest
       ((callReject (reject (snd kv)) (Error cancelledMsg) s)
        \<lparr>activePaymentWindows := mapDelete (fst kv) (activePaymentWindows s)\<rparr>)"

definition handlePaymentCancel :: "(nat \<Rightarrow> jsdata \<Rightarrow> jserror option) \<Rightarrow> jsdata \<Rightarrow> sdk \<Rightarrow> completion" where
  "handlePaymentCancel beh d s =
     (case emitEvent beh ''cancel'' d s of
        Threw e s1 \<Rightarrow> Threw e s1
      | Returned s1 \<Rightarrow> forEachCancel (activePaymentWindows s1) s1)"

text \<open>
  A \<^verbatim>\<open>message\<close> event: its \<^verbatim>\<open>origin\<close> and its \<^verbatim>\<open>data\<close>, the body. The body is
  \<open>None\<close> when \<^verbatim>\<open>event.data\<close> is falsy; otherwise it gives the \<^verbatim>\<open>type\<close> member
  (\<open>None\<close> when missing or not a string) and the \<^verbatim>\<open>data\<close> member.
\<close>

record body =
  btype :: "string option"
  bdata :: jsdata

record message_event =
  origin :: string
  mdata :: "body option"

definition messageHandler :: "(nat \<Rightarrow> jsdata \<Rightarrow> jserror option) \<Rightarrow> message_event \<Rightarrow> sdk \<Rightarrow> completion" where
  "messageHandler beh ev s =
     (if \<not> str_includes (origin ev) ''venepagos'' then Returned s
      else
        (let b = (case mdata ev of None \<Rightarrow> \<lparr>btype = None, bdata = Undefined\<rparr> | Some b \<Rightarrow> b)
         in if btype b = Some ''PAYMENT_SUCCESS'' then handlePaymentSuccess beh (bdata b) s
            else if btype b = Some ''PAYMENT_ERROR'' then handlePaymentError beh (bdata b) s
            else if btype b = Some ''PAYMENT_CANCEL'' then handlePaymentCancel beh (bdata b) s
            else Returned s))"

subsection \<open>The event loop\<close>

text \<open>
  One turn of the event loop. A timer callback runs only while it is scheduled:
  \<^verbatim>\<open>clearInterval\<close> unschedules the poll loop, and a timeout fires once. The message
  handler runs only while it is attached. An exception that a method throws ends that
  turn and leaves the state as it was at the throw. \<open>UserCloses\<close> is the user closing a
  window, \<open>StorageSet\<close> a page of the same origin writing the \<^verbatim>\<open>localStorage\<close>.
\<close>

datatype action =
    Open string "nat option" string nat
  | Tick closure
  | Deadline closure
  | Message message_event
  | On string jsval
  | Off string jsval
  | CloseAll
  | Destroy
  | UserCloses nat
  | StorageSet string string

fun step :: "(nat \<Rightarrow> jsdata \<Rightarrow> jserror option) \<Rightarrow> action \<Rightarrow> sdk \<Rightarrow> sdk" where
  "step beh (Open paymentUrl popup paymentId now) s = openPaymentPopup paymentUrl popup paymentId now s"
| "step beh (Tick c) s = (if c \<in> set (pollers s) then checkClosed c s else s)"
| "step beh (Deadline c) s =
     (if c \<in> set (deadlines s)
      then deadlineTimeout c (s\<lparr>deadlines := remove1 c (deadlines s)\<rparr>)
      else s)"
| "step beh (Message ev) s =
     (if messageHandlerAttached s then stateOf (messageHandler beh ev s) else s)"
| "step beh (On ev cb) s = stateOf (on ev cb s)"
| "step beh (Off ev cb) s = off ev cb s"
| "step beh CloseAll s = closeAllPaymentWindows s"
| "step beh Destroy s = destroy s"
| "step beh (UserCloses w) s = windowClose w s"
| "step beh (StorageSet k v) s = setItem k v s"

fun run :: "(nat \<Rightarrow> jsdata \<Rightarrow> jserror option) \<Rightarrow> action list \<Rightarrow> sdk \<Rightarrow> sdk" where
  "run beh [] s = s"
| "run beh (a # as) s = run beh as (step beh a s)"

text \<open>The identifiers that the \<open>Open\<close> actions of a trace register.\<close>

fun openedIds :: "action list \<Rightarrow> string list" where
  "openedIds [] = []"
| "openedIds (Open paymentUrl (Some w) paymentId now # as) = paymentId # openedIds as"
| "openedIds (a # as) = openedIds as"

subsection \<open>Notions used to state the properties\<close>

text \<open>The functions that a publish calls, in order, among the given subscriptions, and
  what the \<^verbatim>\<open>catch\<close> writes to the console for them.\<close>

fun calledFunctions :: "listener list \<Rightarrow> nat list" where
  "calledFunctions [] = []"
| "calledFunctions (l # ls) =
     (case callback l of JFunction f \<Rightarrow> f # calledFunctions ls | _ \<Rightarrow> calledFunctions ls)"

fun loggedErrors :: "(nat \<Rightarrow> jsdata \<Rightarrow> jserror option) \<Rightarrow> jsdata \<Rightarrow> listener list \<Rightarrow> jserror list" where
  "loggedErrors beh d [] = []"
| "loggedErrors beh d (l # ls) =
     (case callback l of
        JFunction f \<Rightarrow> (case beh f d of None \<Rightarrow> [] | Some e \<Rightarrow> [e])
      | _ \<Rightarrow> [TypeError]) @ loggedErrors beh d ls"

definition subscribersOf :: "string \<Rightarrow> sdk \<Rightarrow> listener list" where
  "subscribersOf ev s = filter (\<lambda>listener. event listener = ev) (eventListeners s)"

text \<open>The state after a publish, and the state after a broadcast over the entries \<open>m\<close>
  that records \<open>f kv\<close> for each entry and deletes it.\<close>

definition afterEmit :: "(nat \<Rightarrow> jsdata \<Rightarrow> jserror option) \<Rightarrow> string \<Rightarrow> jsdata \<Rightarrow> sdk \<Rightarrow> sdk" where
  "afterEmit beh ev d s =
     s\<lparr>invoked := invoked s @ map (\<lambda>f. (f, d)) (calledFunctions (subscribersOf ev s)),
       console := console s @ loggedErrors beh d (subscribersOf ev s)\<rparr>"

definition settleAll :: "((string \<times> entry) \<Rightarrow> nat \<times> settlement) \<Rightarrow> (string \<times> entry) list \<Rightarrow> sdk \<Rightarrow> sdk" where
  "settleAll f m s =
     s\<lparr>settlements := settlements s @ map f m,
       activePaymentWindows := filter (\<lambda>kv. fst kv \<notin> fst ` set m) (activePaymentWindows s)\<rparr>"

definition completedWith :: "jsdata \<Rightarrow> payment_result" where
  "completedWith d =
     \<lparr>success = True, reference = dReference d, status = ''completed'',
      closedManually = None, data = Some d\<rparr>"

definition errorOf :: "jsdata \<Rightarrow> jserror" where
  "errorOf d = Error (if truthy (dError d) then the (dError d) else paymentErrorMsg)"

text \<open>What the poll loop settles a manually closed session with.\<close>

definition manualCloseOutcome :: "sdk \<Rightarrow> settlement" where
  "manualCloseOutcome s =
     (if truthy (getItem s ''lastPaymentReference'')
      then Resolved \<lparr>success = True, reference = getItem s ''lastPaymentReference'',
                     status = ''completed'', closedManually = Some True, data = None\<rparr>
      else Rejected (Error userClosedMsg))"

text \<open>The timer callbacks that may still run.\<close>

definition closuresOf :: "sdk \<Rightarrow> closure set" where
  "closuresOf s = set (pollers s) \<union> set (deadlines s)"

text \<open>
  The invariant behind one-shot settlement, on the scheduled callbacks \<open>C\<close>, the registry
  \<open>R\<close>, the settlement log \<open>L\<close> and the next promise number \<open>n\<close>: promise numbers in
  use are below \<open>n\<close>; an entry holds the two functions of one promise; no promise has
  two calls in the log; the promise of a registered entry has none; a callback whose
  promise has a call finds its identifier gone from the registry; a callback and an
  entry, or two callbacks, with the same promise have the same identifier; and the
  entries hold different promises.
\<close>

definition rinv :: "closure set \<Rightarrow> (string \<times> entry) list \<Rightarrow> (nat \<times> settlement) list \<Rightarrow> nat \<Rightarrow> bool" where
  "rinv C R L n \<longleftrightarrow>
     (\<forall>c \<in> C. cPromise c < n) \<and>
     (\<forall>kv \<in> set R. resolve (snd kv) < n \<and> reject (snd kv) = resolve (snd kv)) \<and>
     (\<forall>x \<in> set L. fst x < n) \<and>
     distinct (map fst L) \<and>
     (\<forall>kv \<in> set R. resolve (snd kv) \<notin> fst ` set L) \<and>
     (\<forall>c \<in> C. cPromise c \<in> fst ` set L \<longrightarrow> cPaymentId c \<notin> fst ` set R) \<and>
     (\<forall>c \<in> C. \<forall>kv \<in> set R. cPromise c = resolve (snd kv) \<longrightarrow> cPaymentId c = fst kv) \<and>
     (\<forall>c \<in> C. \<forall>c' \<in> C. cPromise c = cPromise c' \<longrightarrow> cPaymentId c = cPaymentId c') \<and>
     distinct (map (\<lambda>kv. resolve (snd kv)) R)"

definition registryInv :: "sdk \<Rightarrow> bool" where
  "registryInv s = rinv (closuresOf s) (activePaymentWindows s) (settlements s) (nextPromise s)"

text \<open>What the specification says of \<^verbatim>\<open>unsubscribe\<close>: the first exact match is removed.\<close>

definition off_first_match :: "string \<Rightarrow> jsval \<Rightarrow> sdk \<Rightarrow> sdk" where
  "off_first_match ev cb s =
     s\<lparr>eventListeners := remove1 \<lparr>event = ev, callback = cb\<rparr> (eventListeners s)\<rparr>"

subsection \<open>Example states\<close>

definition exampleConfig :: config where
  "exampleConfig = \<lparr>cfgApiKey = Some ''vp_test'', cfgBaseUrl = None, cfgSandbox = None\<rparr>"

definition newSdk :: sdk where
  "newSdk =
     \<lparr> apiKey = ''vp_test'', baseUrl = ''https://venepagos.com.ve'', sandbox = False,
       activePaymentWindows = [], eventListeners = [], messageHandlerAttached = True,
       closedWindows = {}, localStorage = [], pollers = [], deadlines = [],
       nextPromise = 0, settlements = [], invoked = [], console = [] \<rparr>"

definition session1 :: closure where
  "session1 = \<lparr>cPaymentId = ''payment_1000_k3j9x2m1q'', cPopup = 7, cPromise = 0\<rparr>"

definition session2 :: closure where
  "session2 = \<lparr>cPaymentId = ''payment_2000_p8w5z0c4d'', cPopup = 8, cPromise = 1\<rparr>"

text \<open>One payment window open, then two.\<close>

definition onePending :: sdk where
  "onePending =
     openPaymentPopup ''https://venepagos.com.ve/pay/abc'' (Some 7) ''payment_1000_k3j9x2m1q'' 1000 newSdk"

definition twoPending :: sdk where
  "twoPending =
     openPaymentPopup ''https://venepagos.com.ve/pay/def'' (Some 8) ''payment_2000_p8w5z0c4d'' 2000 onePending"

text \<open>The same function subscribed twice to \<^verbatim>\<open>success\<close>, with another function between.\<close>

definition dupSubs :: sdk where
  "dupSubs =
     stateOf (on ''success'' (JFunction 1)
       (stateOf (on ''success'' (JFunction 2)
         (stateOf (on ''success'' (JFunction 1) newSdk)))))"

definition quiet :: "nat \<Rightarrow> jsdata \<Rightarrow> jserror option" where
  "quiet f d = None"

definition firstThrows :: "nat \<Rightarrow> jsdata \<Rightarrow> jserror option" where
  "firstThrows f d = (if f = 1 then Some (Error ''boom'') else None)"

definition notification :: "string \<Rightarrow> string \<Rightarrow> jsdata \<Rightarrow> message_event" where
  "notification sender t d = \<lparr>origin = sender, mdata = Some \<lparr>btype = Some t, bdata = d\<rparr>\<rparr>"

definition exampleTrace :: "action list" where
  "exampleTrace =
     [Open ''https://venepagos.com.ve/pay/abc'' (Some 7) ''payment_1000_k3j9x2m1q'' 1000,
      Open ''https://venepagos.com.ve/pay/def'' (Some 8) ''payment_2000_p8w5z0c4d'' 2000,
      UserCloses 7,
      Tick session1,
      Message (notification ''https://venepagos.com.ve'' ''PAYMENT_SUCCESS'' (Obj (Some ''R123'') None)),
      Deadline session1,
      Deadline session2,
      Tick session2]"

section \<open>Lemmas\<close>

lemma set_mapSet: "set (mapSet k v m) \<subseteq> insert (k, v) (set m)"
  by (induction m) auto

lemma keys_mapSet: "fst ` set (mapSet k v m) = insert k (fst ` set m)"
  by (induction m) auto

lemma distinct_mapSet:
  "distinct (map f m) \<Longrightarrow> f (k, v) \<notin> f ` set m \<Longrightarrow> distinct (map f (mapSet k v m))"
proof (induction m)
  case Nil
  then show ?case by simp
next
  case (Cons kv m)
  have "f ` set (mapSet k v m) \<subseteq> insert (f (k, v)) (f ` set m)"
    using set_mapSet [of k v m] by auto
  with Cons show ?case by auto
qed

lemma set_mapDelete: "set (mapDelete k m) = {kv \<in> set m. fst kv \<noteq> k}"
  by (auto simp: mapDelete_def)

lemma distinct_mapDelete: "distinct (map f m) \<Longrightarrow> distinct (map f (mapDelete k m))"
  by (simp add: mapDelete_def distinct_map_filter)

lemma rinvI:
  assumes "\<And>c. c \<in> C \<Longrightarrow> cPromise c < n"
    and "\<And>kv. kv \<in> set R \<Longrightarrow> resolve (snd kv) < n"
    and "\<And>kv. kv \<in> set R \<Longrightarrow> reject (snd kv) = resolve (snd kv)"
    and "\<And>x. x \<in> set L \<Longrightarrow> fst x < n"
    and "distinct (map fst L)"
    and "\<And>kv. kv \<in> set R \<Longrightarrow> resolve (snd kv) \<notin> fst ` set L"
    and "\<And>c. c \<in> C \<Longrightarrow> cPromise c \<in> fst ` set L \<Longrightarrow> cPaymentId c \<notin> fst ` set R"
    and "\<And>c kv. c \<in> C \<Longrightarrow> kv \<in> set R \<Longrightarrow> cPromise c = resolve (snd kv) \<Longrightarrow> cPaymentId c = fst kv"
    and "\<And>c c'. c \<in> C \<Longrightarrow> c' \<in> C \<Longrightarrow> cPromise c = cPromise c' \<Longrightarrow> cPaymentId c = cPaymentId c'"
    and "distinct (map (\<lambda>kv. resolve (snd kv)) R)"
  shows "rinv C R L n"
  unfolding rinv_def using assms by blast

lemma rinv_closure_lt: "rinv C R L n \<Longrightarrow> c \<in> C \<Longrightarrow> cPromise c < n"
  unfolding rinv_def by blast

lemma rinv_entry_lt: "rinv C R L n \<Longrightarrow> kv \<in> set R \<Longrightarrow> resolve (snd kv) < n"
  unfolding rinv_def by blast

lemma rinv_entry_reject: "rinv C R L n \<Longrightarrow> kv \<in> set R \<Longrightarrow> reject (snd kv) = resolve (snd kv)"
  unfolding rinv_def by blast

lemma rinv_settled_lt: "rinv C R L n \<Longrightarrow> x \<in> set L \<Longrightarrow> fst x < n"
  unfolding rinv_def by blast

lemma rinv_once: "rinv C R L n \<Longrightarrow> distinct (map fst L)"
  unfolding rinv_def by blast

lemma rinv_pending: "rinv C R L n \<Longrightarrow> kv \<in> set R \<Longrightarrow> resolve (snd kv) \<notin> fst ` set L"
  unfolding rinv_def by blast

lemma rinv_done: "rinv C R L n \<Longrightarrow> c \<in> C \<Longrightarrow> cPromise c \<in> fst ` set L \<Longrightarrow> cPaymentId c \<notin> fst ` set R"
  unfolding rinv_def by blast

lemma rinv_link: "rinv C R L n \<Longrightarrow> c \<in> C \<Longrightarrow> kv \<in> set R \<Longrightarrow> cPromise c = resolve (snd kv) \<Longrightarrow> cPaymentId c = fst kv"
  unfolding rinv_def by blast

lemma rinv_same: "rinv C R L n \<Longrightarrow> c \<in> C \<Longrightarrow> c' \<in> C \<Longrightarrow> cPromise c = cPromise c' \<Longrightarrow> cPaymentId c = cPaymentId c'"
  unfolding rinv_def by blast

lemma rinv_distinct: "rinv C R L n \<Longrightarrow> distinct (map (\<lambda>kv. resolve (snd kv)) R)"
  unfolding rinv_def by blast

lemma rinv_mono:
  assumes "rinv C R L n" "C' \<subseteq> C"
  shows "rinv C' R L n"
proof (rule rinvI)
  fix c assume "c \<in> C'"
  then show "cPromise c < n" using assms rinv_closure_lt by blast
next
  fix c assume "c \<in> C'" "cPromise c \<in> fst ` set L"
  then show "cPaymentId c \<notin> fst ` set R" using assms rinv_done by blast
next
  fix c kv assume "c \<in> C'" "kv \<in> set R" "cPromise c = resolve (snd kv)"
  then show "cPaymentId c = fst kv" using assms rinv_link by blast
next
  fix c c' assume "c \<in> C'" "c' \<in> C'" "cPromise c = cPromise c'"
  then show "cPaymentId c = cPaymentId c'" using assms rinv_same by blast
qed (use assms(1) in \<open>blast dest: rinv_entry_lt rinv_entry_reject rinv_settled_lt rinv_once rinv_pending rinv_distinct\<close>)+

lemma rinv_clear:
  assumes "rinv C R L n"
  shows "rinv C [] L n"
proof (rule rinvI)
  fix c assume "c \<in> C"
  then show "cPromise c < n" using assms rinv_closure_lt by blast
next
  fix x assume "x \<in> set L"
  then show "fst x < n" using assms rinv_settled_lt by blast
next
  show "distinct (map fst L)" using assms by (rule rinv_once)
next
  fix c c' assume "c \<in> C" "c' \<in> C" "cPromise c = cPromise c'"
  then show "cPaymentId c = cPaymentId c'" using assms rinv_same by blast
qed simp_all

lemma rinv_blocked:
  assumes "rinv C R L n"
  shows "rinv C R (L @ [(n, x)]) (Suc n)"
proof (rule rinvI)
  fix c assume "c \<in> C"
  then show "cPromise c < Suc n" using rinv_closure_lt [OF assms] by (simp add: less_Suc_eq)
next
  fix kv assume "kv \<in> set R"
  then show "resolve (snd kv) < Suc n" using rinv_entry_lt [OF assms] by (simp add: less_Suc_eq)
next
  fix kv assume "kv \<in> set R"
  then show "reject (snd kv) = resolve (snd kv)" using assms by (rule rinv_entry_reject [rotated])
next
  fix y assume "y \<in> set (L @ [(n, x)])"
  then show "fst y < Suc n" using rinv_settled_lt [OF assms, of y] by (auto simp: less_Suc_eq)
next
  have "n \<notin> fst ` set L" using rinv_settled_lt [OF assms] by fastforce
  then show "distinct (map fst (L @ [(n, x)]))" using rinv_once [OF assms] by simp
next
  fix kv assume kv: "kv \<in> set R"
  have "resolve (snd kv) \<noteq> n" using rinv_entry_lt [OF assms kv] by simp
  then show "resolve (snd kv) \<notin> fst ` set (L @ [(n, x)])"
    using rinv_pending [OF assms kv] by simp
next
  fix c assume c: "c \<in> C" "cPromise c \<in> fst ` set (L @ [(n, x)])"
  have "cPromise c \<noteq> n" using rinv_closure_lt [OF assms c(1)] by simp
  with c(2) have "cPromise c \<in> fst ` set L" by auto
  then show "cPaymentId c \<notin> fst ` set R" using rinv_done [OF assms c(1)] by blast
next
  fix c kv assume "c \<in> C" "kv \<in> set R" "cPromise c = resolve (snd kv)"
  then show "cPaymentId c = fst kv" using assms rinv_link by blast
next
  fix c c' assume "c \<in> C" "c' \<in> C" "cPromise c = cPromise c'"
  then show "cPaymentId c = cPaymentId c'" using assms rinv_same by blast
next
  show "distinct (map (\<lambda>kv. resolve (snd kv)) R)" using assms by (rule rinv_distinct)
qed

lemma rinv_settle_all:
  assumes "rinv C R L n"
  shows "rinv C [] (L @ map (\<lambda>kv. (resolve (snd kv), f kv)) R) n"
proof (rule rinvI)
  fix c assume "c \<in> C"
  then show "cPromise c < n" using assms rinv_closure_lt by blast
next
  fix y assume "y \<in> set (L @ map (\<lambda>kv. (resolve (snd kv), f kv)) R)"
  then show "fst y < n" using rinv_settled_lt [OF assms, of y] rinv_entry_lt [OF assms] by auto
next
  have "set (map fst L) \<inter> set (map (\<lambda>kv. resolve (snd kv)) R) = {}"
  proof (rule ccontr)
    assume "set (map fst L) \<inter> set (map (\<lambda>kv. resolve (snd kv)) R) \<noteq> {}"
    then obtain p where p: "p \<in> fst ` set L" "p \<in> (\<lambda>kv. resolve (snd kv)) ` set R"
      by auto
    from p(2) obtain kv where "kv \<in> set R" "p = resolve (snd kv)" by blast
    with rinv_pending [OF assms, of kv] p(1) show False by simp
  qed
  then show "distinct (map fst (L @ map (\<lambda>kv. (resolve (snd kv), f kv)) R))"
    using rinv_once [OF assms] rinv_distinct [OF assms] by (simp add: comp_def)
next
  fix c c' assume "c \<in> C" "c' \<in> C" "cPromise c = cPromise c'"
  then show "cPaymentId c = cPaymentId c'" using assms rinv_same by blast
qed simp_all

lemma rinv_open:
  assumes inv: "rinv C R L n" and fresh: "k \<notin> cPaymentId ` C"
    and e: "resolve e = n" "reject e = n"
  shows "rinv (insert \<lparr>cPaymentId = k, cPopup = w, cPromise = n\<rparr> C) (mapSet k e R) L (Suc n)"
proof (rule rinvI)
  fix c assume "c \<in> insert \<lparr>cPaymentId = k, cPopup = w, cPromise = n\<rparr> C"
  then show "cPromise c < Suc n" using rinv_closure_lt [OF inv, of c] by (auto simp: less_Suc_eq)
next
  fix kv assume "kv \<in> set (mapSet k e R)"
  then have "kv = (k, e) \<or> kv \<in> set R" using set_mapSet [of k e R] by blast
  then show "resolve (snd kv) < Suc n" using rinv_entry_lt [OF inv, of kv] e by (auto simp: less_Suc_eq)
next
  fix kv assume "kv \<in> set (mapSet k e R)"
  then have "kv = (k, e) \<or> kv \<in> set R" using set_mapSet [of k e R] by blast
  then show "reject (snd kv) = resolve (snd kv)" using rinv_entry_reject [OF inv, of kv] e by auto
next
  fix x assume "x \<in> set L"
  then show "fst x < Suc n" using rinv_settled_lt [OF inv, of x] by (simp add: less_Suc_eq)
next
  show "distinct (map fst L)" using inv by (rule rinv_once)
next
  fix kv assume "kv \<in> set (mapSet k e R)"
  then have kv: "kv = (k, e) \<or> kv \<in> set R" using set_mapSet [of k e R] by blast
  have "n \<notin> fst ` set L" using rinv_settled_lt [OF inv] by fastforce
  then have "kv = (k, e) \<Longrightarrow> resolve (snd kv) \<notin> fst ` set L" using e by simp
  with kv show "resolve (snd kv) \<notin> fst ` set L" using rinv_pending [OF inv, of kv] by blast
next
  fix c assume c: "c \<in> insert \<lparr>cPaymentId = k, cPopup = w, cPromise = n\<rparr> C"
    and s: "cPromise c \<in> fst ` set L"
  have "n \<notin> fst ` set L" using rinv_settled_lt [OF inv] by fastforce
  with c s have cC: "c \<in> C" by force
  then have "cPaymentId c \<noteq> k" using fresh by blast
  moreover have "cPaymentId c \<notin> fst ` set R" using rinv_done [OF inv cC s] .
  ultimately show "cPaymentId c \<notin> fst ` set (mapSet k e R)" by (simp add: keys_mapSet)
next
  fix c kv assume c: "c \<in> insert \<lparr>cPaymentId = k, cPopup = w, cPromise = n\<rparr> C"
    and "kv \<in> set (mapSet k e R)" and eq: "cPromise c = resolve (snd kv)"
  then have kv: "kv = (k, e) \<or> kv \<in> set R" using set_mapSet [of k e R] by blast
  show "cPaymentId c = fst kv"
  proof (cases "c \<in> C")
    case True
    then have lt: "cPromise c < n" using rinv_closure_lt [OF inv] by blast
    with kv eq e have "kv \<in> set R" by auto
    then show ?thesis using rinv_link [OF inv True _ eq] by blast
  next
    case False
    with c have c': "c = \<lparr>cPaymentId = k, cPopup = w, cPromise = n\<rparr>" by blast
    have "kv \<notin> set R" using rinv_entry_lt [OF inv, of kv] eq c' by auto
    with kv c' show ?thesis by auto
  qed
next
  fix c c' assume c: "c \<in> insert \<lparr>cPaymentId = k, cPopup = w, cPromise = n\<rparr> C"
    and c': "c' \<in> insert \<lparr>cPaymentId = k, cPopup = w, cPromise = n\<rparr> C"
    and eq: "cPromise c = cPromise c'"
  show "cPaymentId c = cPaymentId c'"
  proof (cases "c \<in> C \<and> c' \<in> C")
    case True
    then show ?thesis using rinv_same [OF inv _ _ eq] by blast
  next
    case False
    then show ?thesis using c c' eq rinv_closure_lt [OF inv, of c] rinv_closure_lt [OF inv, of c']
      by auto
  qed
next
  have "resolve (snd (k, e)) \<notin> (\<lambda>kv. resolve (snd kv)) ` set R"
    using rinv_entry_lt [OF inv] e by fastforce
  then show "distinct (map (\<lambda>kv. resolve (snd kv)) (mapSet k e R))"
    using rinv_distinct [OF inv] by (intro distinct_mapSet)
qed

lemma rinv_settle_one:
  assumes inv: "rinv C R L n" and c: "c \<in> C" and k: "cPaymentId c \<in> fst ` set R"
  shows "rinv C (mapDelete (cPaymentId c) R) (L @ [(cPromise c, x)]) n"
proof (rule rinvI)
  fix c' assume "c' \<in> C"
  then show "cPromise c' < n" using rinv_closure_lt [OF inv] by blast
next
  fix kv assume "kv \<in> set (mapDelete (cPaymentId c) R)"
  then have "kv \<in> set R" by (simp add: set_mapDelete)
  then show "resolve (snd kv) < n" using rinv_entry_lt [OF inv] by blast
next
  fix kv assume "kv \<in> set (mapDelete (cPaymentId c) R)"
  then have "kv \<in> set R" by (simp add: set_mapDelete)
  then show "reject (snd kv) = resolve (snd kv)" using rinv_entry_reject [OF inv] by blast
next
  fix y assume "y \<in> set (L @ [(cPromise c, x)])"
  then show "fst y < n" using rinv_settled_lt [OF inv, of y] rinv_closure_lt [OF inv c] by auto
next
  have "cPromise c \<notin> fst ` set L" using rinv_done [OF inv c] k by blast
  then show "distinct (map fst (L @ [(cPromise c, x)]))" using rinv_once [OF inv] by simp
next
  fix kv assume "kv \<in> set (mapDelete (cPaymentId c) R)"
  then have kv: "kv \<in> set R" "fst kv \<noteq> cPaymentId c" by (simp_all add: set_mapDelete)
  have "resolve (snd kv) \<noteq> cPromise c" using rinv_link [OF inv c kv(1)] kv(2) by auto
  then show "resolve (snd kv) \<notin> fst ` set (L @ [(cPromise c, x)])"
    using rinv_pending [OF inv kv(1)] by simp
next
  fix c' assume c': "c' \<in> C" and s: "cPromise c' \<in> fst ` set (L @ [(cPromise c, x)])"
  show "cPaymentId c' \<notin> fst ` set (mapDelete (cPaymentId c) R)"
  proof (cases "cPromise c' = cPromise c")
    case True
    then have "cPaymentId c' = cPaymentId c" using rinv_same [OF inv c' c] by blast
    then show ?thesis by (auto simp: set_mapDelete)
  next
    case False
    with s have "cPromise c' \<in> fst ` set L" by auto
    then have "cPaymentId c' \<notin> fst ` set R" using rinv_done [OF inv c'] by blast
    then show ?thesis by (auto simp: set_mapDelete)
  qed
next
  fix c' kv assume "c' \<in> C" "kv \<in> set (mapDelete (cPaymentId c) R)" "cPromise c' = resolve (snd kv)"
  then show "cPaymentId c' = fst kv" using rinv_link [OF inv, of c' kv] by (simp add: set_mapDelete)
next
  fix c' c'' assume "c' \<in> C" "c'' \<in> C" "cPromise c' = cPromise c''"
  then show "cPaymentId c' = cPaymentId c''" using rinv_same [OF inv] by blast
next
  show "distinct (map (\<lambda>kv. resolve (snd kv)) (mapDelete (cPaymentId c) R))"
    using rinv_distinct [OF inv] by (rule distinct_mapDelete)
qed

lemma forEachListener_returns:
  "forEachListener beh ls d s =
     Returned (s\<lparr>invoked := invoked s @ map (\<lambda>f. (f, d)) (calledFunctions ls),
                 console := console s @ loggedErrors beh d ls\<rparr>)"
proof (induction ls arbitrary: s)
  case Nil
  show ?case by simp
next
  case (Cons l ls)
  show ?case
    by (cases "callback l")
       (simp_all add: Cons.IH tryCallback_def callCallback_def Let_def split: option.splits)
qed

lemma emitEvent_returns: "emitEvent beh ev d s = Returned (afterEmit beh ev d s)"
  by (simp add: emitEvent_def afterEmit_def subscribersOf_def forEachListener_returns)

lemma afterEmit_fields [simp]:
  "activePaymentWindows (afterEmit beh ev d s) = activePaymentWindows s"
  "settlements (afterEmit beh ev d s) = settlements s"
  "pollers (afterEmit beh ev d s) = pollers s"
  "deadlines (afterEmit beh ev d s) = deadlines s"
  "nextPromise (afterEmit beh ev d s) = nextPromise s"
  "eventListeners (afterEmit beh ev d s) = eventListeners s"
  "closedWindows (afterEmit beh ev d s) = closedWindows s"
  "localStorage (afterEmit beh ev d s) = localStorage s"
  "messageHandlerAttached (afterEmit beh ev d s) = messageHandlerAttached s"
  by (simp_all add: afterEmit_def)

lemma forEachSuccess_Obj:
  "forEachSuccess (Obj r e) m s =
     Returned (settleAll (\<lambda>kv. (resolve (snd kv), Resolved (completedWith (Obj r e)))) m s)"
proof (induction m arbitrary: s)
  case Nil
  show ?case by (simp add: settleAll_def)
next
  case (Cons kv m)
  show ?case
    by (simp add: Cons.IH settleAll_def callResolve_def mapDelete_def completedWith_def conj_commute)
qed

lemma forEachError_Obj:
  "forEachError (Obj r e) m s =
     Returned (settleAll (\<lambda>kv. (reject (snd kv), Rejected (errorOf (Obj r e)))) m s)"
proof (induction m arbitrary: s)
  case Nil
  show ?case by (simp add: settleAll_def)
next
  case (Cons kv m)
  show ?case
    by (simp add: Cons.IH settleAll_def callReject_def mapDelete_def errorOf_def conj_commute)
qed

lemma forEachCancel_closed:
  "forEachCancel m s =
     Returned (settleAll (\<lambda>kv. (reject (snd kv), Rejected (Error cancelledMsg))) m s)"
proof (induction m arbitrary: s)
  case Nil
  show ?case by (simp add: settleAll_def)
next
  case (Cons kv m)
  show ?case
    by (simp add: Cons.IH settleAll_def callReject_def mapDelete_def conj_commute)
qed

lemma settleAll_whole [simp]:
  "activePaymentWindows (settleAll f (activePaymentWindows s) s) = []"
  "settlements (settleAll f m s) = settlements s @ map f m"
  "pollers (settleAll f m s) = pollers s"
  "deadlines (settleAll f m s) = deadlines s"
  "nextPromise (settleAll f m s) = nextPromise s"
  "eventListeners (settleAll f m s) = eventListeners s"
  "closedWindows (settleAll f m s) = closedWindows s"
  "localStorage (settleAll f m s) = localStorage s"
  "invoked (settleAll f m s) = invoked s"
  "console (settleAll f m s) = console s"
  by (simp_all add: settleAll_def)

lemma forEachSuccess_throws:
  "m \<noteq> [] \<Longrightarrow> d = Undefined \<or> d = Null \<Longrightarrow> forEachSuccess d m s = Threw TypeError s"
  by (cases m) auto

lemma forEachError_throws:
  "m \<noteq> [] \<Longrightarrow> d = Undefined \<or> d = Null \<Longrightarrow> forEachError d m s = Threw TypeError s"
  by (cases m) auto

lemma closuresOf_afterEmit [simp]: "closuresOf (afterEmit beh ev d s) = closuresOf s"
  by (simp add: closuresOf_def)

lemma closuresOf_settleAll [simp]: "closuresOf (settleAll f m s) = closuresOf s"
  by (simp add: closuresOf_def)

lemma registryInv_afterEmit [simp]: "registryInv (afterEmit beh ev d s) = registryInv s"
  by (simp add: registryInv_def)

lemma registryInv_settleAll_resolve:
  assumes "registryInv s"
  shows "registryInv (settleAll (\<lambda>kv. (resolve (snd kv), g kv)) (activePaymentWindows s) s)"
  using rinv_settle_all [OF assms [unfolded registryInv_def], of g]
  by (simp add: registryInv_def)

lemma registryInv_settleAll_reject:
  assumes "registryInv s"
  shows "registryInv (settleAll (\<lambda>kv. (reject (snd kv), g kv)) (activePaymentWindows s) s)"
proof -
  have "map (\<lambda>kv. (reject (snd kv), g kv)) (activePaymentWindows s)
      = map (\<lambda>kv. (resolve (snd kv), g kv)) (activePaymentWindows s)"
    using rinv_entry_reject [OF assms [unfolded registryInv_def]] by (intro map_cong) auto
  with rinv_settle_all [OF assms [unfolded registryInv_def], of g]
  have "rinv (closuresOf s) [] (settlements s @ map (\<lambda>kv. (reject (snd kv), g kv)) (activePaymentWindows s))
          (nextPromise s)"
    by (simp only:)
  then show ?thesis by (simp add: registryInv_def)
qed

lemma handlePaymentSuccess_Obj:
  "handlePaymentSuccess beh (Obj r e) s =
     Returned (settleAll (\<lambda>kv. (resolve (snd kv), Resolved (completedWith (Obj r e))))
                 (activePaymentWindows s) (afterEmit beh ''success'' (Obj r e) s))"
  by (simp add: handlePaymentSuccess_def emitEvent_returns forEachSuccess_Obj)

lemma handlePaymentError_Obj:
  "handlePaymentError beh (Obj r e) s =
     Returned (settleAll (\<lambda>kv. (reject (snd kv), Rejected (errorOf (Obj r e))))
                 (activePaymentWindows s) (afterEmit beh ''error'' (Obj r e) s))"
  by (simp add: handlePaymentError_def emitEvent_returns forEachError_Obj)

lemma handlePaymentCancel_closed:
  "handlePaymentCancel beh d s =
     Returned (settleAll (\<lambda>kv. (reject (snd kv), Rejected (Error cancelledMsg)))
                 (activePaymentWindows s) (afterEmit beh ''cancel'' d s))"
  by (simp add: handlePaymentCancel_def emitEvent_returns forEachCancel_closed)

lemma handlePaymentSuccess_noObj:
  assumes "d = Undefined \<or> d = Null"
  shows "handlePaymentSuccess beh d s =
     (if activePaymentWindows s = [] then Returned (afterEmit beh ''success'' d s)
      else Threw TypeError (afterEmit beh ''success'' d s))"
  using assms by (auto simp: handlePaymentSuccess_def emitEvent_returns forEachSuccess_throws)

lemma handlePaymentError_noObj:
  assumes "d = Undefined \<or> d = Null"
  shows "handlePaymentError beh d s =
     (if activePaymentWindows s = [] then Returned (afterEmit beh ''error'' d s)
      else Threw TypeError (afterEmit beh ''error'' d s))"
  using assms by (auto simp: handlePaymentError_def emitEvent_returns forEachError_throws)

lemma registryInv_settle_emit_resolve:
  "registryInv s \<Longrightarrow>
   registryInv (settleAll (\<lambda>kv. (resolve (snd kv), g kv)) (activePaymentWindows s) (afterEmit beh ev d s))"
  using registryInv_settleAll_resolve [of "afterEmit beh ev d s" g] by simp

lemma registryInv_settle_emit_reject:
  "registryInv s \<Longrightarrow>
   registryInv (settleAll (\<lambda>kv. (reject (snd kv), g kv)) (activePaymentWindows s) (afterEmit beh ev d s))"
  using registryInv_settleAll_reject [of "afterEmit beh ev d s" g] by simp

lemma registryInv_handlePaymentSuccess:
  "registryInv s \<Longrightarrow> registryInv (stateOf (handlePaymentSuccess beh d s))"
  by (cases d) (simp_all add: handlePaymentSuccess_Obj handlePaymentSuccess_noObj
        registryInv_settle_emit_resolve)

lemma registryInv_handlePaymentError:
  "registryInv s \<Longrightarrow> registryInv (stateOf (handlePaymentError beh d s))"
  by (cases d) (simp_all add: handlePaymentError_Obj handlePaymentError_noObj
        registryInv_settle_emit_reject)

lemma registryInv_handlePaymentCancel:
  "registryInv s \<Longrightarrow> registryInv (stateOf (handlePaymentCancel beh d s))"
  by (simp add: handlePaymentCancel_closed registryInv_settle_emit_reject)

lemma registryInv_messageHandler:
  "registryInv s \<Longrightarrow> registryInv (stateOf (messageHandler beh ev s))"
  by (simp add: messageHandler_def Let_def registryInv_handlePaymentSuccess
        registryInv_handlePaymentError registryInv_handlePaymentCancel)

lemma closuresOf_handlers:
  "closuresOf (stateOf (handlePaymentSuccess beh d s)) = closuresOf s"
  "closuresOf (stateOf (handlePaymentError beh d s)) = closuresOf s"
  "closuresOf (stateOf (handlePaymentCancel beh d s)) = closuresOf s"
  by (cases d; simp add: handlePaymentSuccess_Obj handlePaymentSuccess_noObj
        handlePaymentError_Obj handlePaymentError_noObj handlePaymentCancel_closed)+

lemma closuresOf_messageHandler: "closuresOf (stateOf (messageHandler beh ev s)) = closuresOf s"
  by (simp add: messageHandler_def Let_def closuresOf_handlers)

lemma mapGet_None_iff: "mapGet m k = None \<longleftrightarrow> \<not> mapHas m k"
  by (simp add: mapGet_def mapHas_def map_of_eq_None_iff)

lemma checkClosed_open: "cPopup c \<notin> closedWindows s \<Longrightarrow> checkClosed c s = s"
  by (simp add: checkClosed_def)

lemma checkClosed_absent:
  "cPopup c \<in> closedWindows s \<Longrightarrow> \<not> mapHas (activePaymentWindows s) (cPaymentId c) \<Longrightarrow>
   checkClosed c s = clearInterval c s"
  by (simp add: checkClosed_def clearInterval_def Let_def mapGet_None_iff [symmetric])

lemma checkClosed_settles:
  assumes "cPopup c \<in> closedWindows s" "mapHas (activePaymentWindows s) (cPaymentId c)"
  shows "activePaymentWindows (checkClosed c s) = mapDelete (cPaymentId c) (activePaymentWindows s)"
    and "settlements (checkClosed c s) = settlements s @ [(cPromise c, manualCloseOutcome s)]"
    and "pollers (checkClosed c s) = filter (\<lambda>x. x \<noteq> c) (pollers s)"
    and "deadlines (checkClosed c s) = deadlines s"
    and "nextPromise (checkClosed c s) = nextPromise s"
    and "closedWindows (checkClosed c s) = closedWindows s"
    and "eventListeners (checkClosed c s) = eventListeners s"
    and "localStorage (checkClosed c s) =
           (if truthy (getItem s ''lastPaymentReference'')
            then filter (\<lambda>kv. fst kv \<noteq> ''lastPaymentReference'') (localStorage s)
            else localStorage s)"
proof -
  from assms(2) obtain e where e: "mapGet (activePaymentWindows s) (cPaymentId c) = Some e"
    using mapGet_None_iff [of "activePaymentWindows s" "cPaymentId c"] by auto
  show "activePaymentWindows (checkClosed c s) = mapDelete (cPaymentId c) (activePaymentWindows s)"
    using assms(1) e
    by (simp add: checkClosed_def clearInterval_def Let_def callResolve_def callReject_def
          removeItem_def getItem_def)
  show "settlements (checkClosed c s) = settlements s @ [(cPromise c, manualCloseOutcome s)]"
    using assms(1) e
    by (simp add: checkClosed_def clearInterval_def Let_def callResolve_def callReject_def
          removeItem_def getItem_def manualCloseOutcome_def)
  show "pollers (checkClosed c s) = filter (\<lambda>x. x \<noteq> c) (pollers s)"
    using assms(1) e
    by (simp add: checkClosed_def clearInterval_def Let_def callResolve_def callReject_def
          removeItem_def getItem_def)
  show "deadlines (checkClosed c s) = deadlines s"
    using assms(1) e
    by (simp add: checkClosed_def clearInterval_def Let_def callResolve_def callReject_def
          removeItem_def getItem_def)
  show "nextPromise (checkClosed c s) = nextPromise s"
    using assms(1) e
    by (simp add: checkClosed_def clearInterval_def Let_def callResolve_def callReject_def
          removeItem_def getItem_def)
  show "closedWindows (checkClosed c s) = closedWindows s"
    using assms(1) e
    by (simp add: checkClosed_def clearInterval_def Let_def callResolve_def callReject_def
          removeItem_def getItem_def)
  show "eventListeners (checkClosed c s) = eventListeners s"
    using assms(1) e
    by (simp add: checkClosed_def clearInterval_def Let_def callResolve_def callReject_def
          removeItem_def getItem_def)
  show "localStorage (checkClosed c s) =
           (if truthy (getItem s ''lastPaymentReference'')
            then filter (\<lambda>kv. fst kv \<noteq> ''lastPaymentReference'') (localStorage s)
            else localStorage s)"
    using assms(1) e
    by (simp add: checkClosed_def clearInterval_def Let_def callResolve_def callReject_def
          removeItem_def getItem_def)
qed

lemma deadlineTimeout_absent:
  "\<not> mapHas (activePaymentWindows s) (cPaymentId c) \<Longrightarrow> deadlineTimeout c s = s"
  by (simp add: deadlineTimeout_def)

lemma deadlineTimeout_settles:
  assumes "mapHas (activePaymentWindows s) (cPaymentId c)"
  shows "activePaymentWindows (deadlineTimeout c s) = mapDelete (cPaymentId c) (activePaymentWindows s)"
    and "settlements (deadlineTimeout c s) = settlements s @ [(cPromise c, Rejected (Error timeoutMsg))]"
    and "pollers (deadlineTimeout c s) = filter (\<lambda>x. x \<noteq> c) (pollers s)"
    and "deadlines (deadlineTimeout c s) = deadlines s"
    and "nextPromise (deadlineTimeout c s) = nextPromise s"
    and "closedWindows (deadlineTimeout c s) = insert (cPopup c) (closedWindows s)"
    and "eventListeners (deadlineTimeout c s) = eventListeners s"
    and "localStorage (deadlineTimeout c s) = localStorage s"
  using assms
  by (simp_all add: deadlineTimeout_def clearInterval_def windowClose_def callReject_def Let_def)

lemma registryInv_checkClosed:
  assumes inv: "registryInv s" and c: "c \<in> closuresOf s"
  shows "registryInv (checkClosed c s)"
proof (cases "cPopup c \<in> closedWindows s")
  case False
  then show ?thesis using inv by (simp add: checkClosed_open)
next
  case closed: True
  show ?thesis
  proof (cases "mapHas (activePaymentWindows s) (cPaymentId c)")
    case False
    have "closuresOf (clearInterval c s) \<subseteq> closuresOf s"
      by (auto simp: closuresOf_def clearInterval_def)
    with rinv_mono [OF inv [unfolded registryInv_def]] show ?thesis
      by (simp add: checkClosed_absent [OF closed False] registryInv_def clearInterval_def)
  next
    case True
    note f = checkClosed_settles [OF closed True]
    have sub: "closuresOf (checkClosed c s) \<subseteq> closuresOf s"
      by (auto simp: closuresOf_def f)
    have "rinv (closuresOf s) (mapDelete (cPaymentId c) (activePaymentWindows s))
            (settlements s @ [(cPromise c, manualCloseOutcome s)]) (nextPromise s)"
      using inv c True unfolding registryInv_def mapHas_def by (rule rinv_settle_one)
    from rinv_mono [OF this sub] show ?thesis by (simp add: registryInv_def f)
  qed
qed

lemma registryInv_deadline:
  assumes inv: "registryInv s" and c: "c \<in> closuresOf s"
  shows "registryInv (deadlineTimeout c (s\<lparr>deadlines := remove1 c (deadlines s)\<rparr>))"
proof -
  let ?s = "s\<lparr>deadlines := remove1 c (deadlines s)\<rparr>"
  have sub0: "closuresOf ?s \<subseteq> closuresOf s"
    using set_remove1_subset [of c "deadlines s"] by (auto simp: closuresOf_def)
  show ?thesis
  proof (cases "mapHas (activePaymentWindows ?s) (cPaymentId c)")
    case False
    with rinv_mono [OF inv [unfolded registryInv_def] sub0] show ?thesis
      by (simp add: deadlineTimeout_absent registryInv_def)
  next
    case True
    note f = deadlineTimeout_settles [OF True]
    have sub: "closuresOf (deadlineTimeout c ?s) \<subseteq> closuresOf s"
      using sub0 by (auto simp: closuresOf_def f)
    have "cPaymentId c \<in> fst ` set (activePaymentWindows s)"
      using True by (simp add: mapHas_def)
    with inv c
    have "rinv (closuresOf s) (mapDelete (cPaymentId c) (activePaymentWindows s))
            (settlements s @ [(cPromise c, Rejected (Error timeoutMsg))]) (nextPromise s)"
      unfolding registryInv_def by (rule rinv_settle_one)
    from rinv_mono [OF this sub] show ?thesis by (simp add: registryInv_def f)
  qed
qed

lemma forEachClose_fields [simp]:
  "activePaymentWindows (forEachClose m s) = activePaymentWindows s"
  "settlements (forEachClose m s) = settlements s"
  "pollers (forEachClose m s) = pollers s"
  "deadlines (forEachClose m s) = deadlines s"
  "nextPromise (forEachClose m s) = nextPromise s"
  "eventListeners (forEachClose m s) = eventListeners s"
  "localStorage (forEachClose m s) = localStorage s"
  "messageHandlerAttached (forEachClose m s) = messageHandlerAttached s"
  "invoked (forEachClose m s) = invoked s"
  "console (forEachClose m s) = console s"
  by (induction m arbitrary: s; simp add: windowClose_def)+

lemma closedWindows_forEachClose:
  "closedWindows (forEachClose m s) = closedWindows s \<union> (\<lambda>kv. window (snd kv)) ` set m"
  by (induction m arbitrary: s) (auto simp: windowClose_def)

lemma registryInv_openPaymentPopup:
  assumes inv: "registryInv s"
    and fresh: "\<And>w. popup = Some w \<Longrightarrow> paymentId \<notin> cPaymentId ` closuresOf s"
  shows "registryInv (openPaymentPopup paymentUrl popup paymentId now s)"
proof (cases popup)
  case None
  with rinv_blocked [OF inv [unfolded registryInv_def], of "Rejected (Error popupBlockedMsg)"]
  show ?thesis
    by (simp add: registryInv_def openPaymentPopup_def callReject_def closuresOf_def Let_def)
next
  case (Some w)
  let ?e = "\<lparr>window = w, resolve = nextPromise s, reject = nextPromise s,
             url = paymentUrl, timestamp = now\<rparr>"
  have "rinv (insert \<lparr>cPaymentId = paymentId, cPopup = w, cPromise = nextPromise s\<rparr> (closuresOf s))
          (mapSet paymentId ?e (activePaymentWindows s)) (settlements s) (Suc (nextPromise s))"
    using inv [unfolded registryInv_def] fresh [OF Some] by (rule rinv_open) simp_all
  moreover have "closuresOf (openPaymentPopup paymentUrl popup paymentId now s)
      = insert \<lparr>cPaymentId = paymentId, cPopup = w, cPromise = nextPromise s\<rparr> (closuresOf s)"
    using Some by (auto simp: openPaymentPopup_def closuresOf_def Let_def)
  ultimately show ?thesis
    using Some by (simp add: registryInv_def) (simp add: openPaymentPopup_def Let_def)
qed

lemma registryInv_closeAll: "registryInv s \<Longrightarrow> registryInv (closeAllPaymentWindows s)"
  using rinv_clear [of "closuresOf s" "activePaymentWindows s" "settlements s" "nextPromise s"]
  by (simp add: registryInv_def closeAllPaymentWindows_def closuresOf_def Let_def)

lemma registryInv_destroy: "registryInv s \<Longrightarrow> registryInv (destroy s)"
  using rinv_clear [of "closuresOf s" "activePaymentWindows s" "settlements s" "nextPromise s"]
  by (simp add: registryInv_def destroy_def closeAllPaymentWindows_def closuresOf_def Let_def)

lemma registryInv_step:
  assumes inv: "registryInv s" and fresh: "set (openedIds [a]) \<inter> cPaymentId ` closuresOf s = {}"
  shows "registryInv (step beh a s)"
proof (cases a)
  case (Open paymentUrl popup paymentId now)
  have "\<And>w. popup = Some w \<Longrightarrow> paymentId \<notin> cPaymentId ` closuresOf s"
    using fresh Open by auto
  with inv show ?thesis using Open by (simp add: registryInv_openPaymentPopup)
next
  case (Tick c)
  then show ?thesis using inv by (simp add: registryInv_checkClosed closuresOf_def)
next
  case (Deadline c)
  then show ?thesis using inv by (simp add: registryInv_deadline closuresOf_def)
next
  case (Message ev)
  then show ?thesis using inv by (simp add: registryInv_messageHandler)
next
  case (On ev cb)
  then show ?thesis using inv by (simp add: on_def registryInv_def closuresOf_def)
next
  case (Off ev cb)
  then show ?thesis using inv by (simp add: off_def registryInv_def closuresOf_def)
next
  case CloseAll
  then show ?thesis using inv by (simp add: registryInv_closeAll)
next
  case Destroy
  then show ?thesis using inv by (simp add: registryInv_destroy)
next
  case (UserCloses w)
  then show ?thesis using inv by (simp add: windowClose_def registryInv_def closuresOf_def)
next
  case (StorageSet k v)
  then show ?thesis using inv by (simp add: setItem_def registryInv_def closuresOf_def)
qed

lemma closuresOf_checkClosed: "closuresOf (checkClosed c s) \<subseteq> closuresOf s"
proof (cases "cPopup c \<in> closedWindows s")
  case False
  then show ?thesis by (simp add: checkClosed_open)
next
  case closed: True
  show ?thesis
  proof (cases "mapHas (activePaymentWindows s) (cPaymentId c)")
    case False
    show ?thesis
      by (auto simp: checkClosed_absent [OF closed False] closuresOf_def clearInterval_def)
  next
    case True
    show ?thesis by (auto simp: closuresOf_def checkClosed_settles [OF closed True])
  qed
qed

lemma closuresOf_deadlineTimeout: "closuresOf (deadlineTimeout c s) \<subseteq> closuresOf s"
proof (cases "mapHas (activePaymentWindows s) (cPaymentId c)")
  case False
  then show ?thesis by (simp add: deadlineTimeout_absent)
next
  case True
  show ?thesis by (auto simp: closuresOf_def deadlineTimeout_settles [OF True])
qed

lemma ids_step:
  "cPaymentId ` closuresOf (step beh a s) \<subseteq> cPaymentId ` closuresOf s \<union> set (openedIds [a])"
proof (cases a)
  case (Open paymentUrl popup paymentId now)
  then show ?thesis
    by (cases popup) (auto simp: openPaymentPopup_def closuresOf_def callReject_def Let_def)
next
  case (Tick c)
  then show ?thesis using closuresOf_checkClosed [of c s] by auto
next
  case (Deadline c)
  have "closuresOf (s\<lparr>deadlines := remove1 c (deadlines s)\<rparr>) \<subseteq> closuresOf s"
    using set_remove1_subset [of c "deadlines s"] by (auto simp: closuresOf_def)
  with Deadline closuresOf_deadlineTimeout [of c "s\<lparr>deadlines := remove1 c (deadlines s)\<rparr>"]
  show ?thesis by auto
next
  case (Message ev)
  then show ?thesis by (simp add: closuresOf_messageHandler)
next
  case (On ev cb)
  then show ?thesis by (simp add: on_def closuresOf_def)
next
  case (Off ev cb)
  then show ?thesis by (simp add: off_def closuresOf_def)
next
  case CloseAll
  then show ?thesis by (simp add: closeAllPaymentWindows_def closuresOf_def Let_def)
next
  case Destroy
  then show ?thesis by (simp add: destroy_def closeAllPaymentWindows_def closuresOf_def Let_def)
next
  case (UserCloses w)
  then show ?thesis by (simp add: windowClose_def closuresOf_def)
next
  case (StorageSet k v)
  then show ?thesis by (simp add: setItem_def closuresOf_def)
qed

lemma openedIds_Cons: "openedIds (a # as) = openedIds [a] @ openedIds as"
proof (cases a)
  case (Open paymentUrl popup paymentId now)
  then show ?thesis by (cases popup) simp_all
qed simp_all

lemma registryInv_run:
  assumes "registryInv s" "distinct (openedIds as)"
    and "set (openedIds as) \<inter> cPaymentId ` closuresOf s = {}"
  shows "registryInv (run beh as s)"
  using assms
proof (induction as arbitrary: s)
  case Nil
  then show ?case by simp
next
  case (Cons a as)
  have split: "openedIds (a # as) = openedIds [a] @ openedIds as" by (rule openedIds_Cons)
  have 1: "registryInv (step beh a s)"
    using Cons.prems(1,3) unfolding split by (intro registryInv_step) auto
  have 2: "distinct (openedIds as)" using Cons.prems(2) unfolding split by simp
  have "set (openedIds as) \<inter> (cPaymentId ` closuresOf s \<union> set (openedIds [a])) = {}"
    using Cons.prems(2,3) unfolding split by auto
  with ids_step [of beh a s]
  have 3: "set (openedIds as) \<inter> cPaymentId ` closuresOf (step beh a s) = {}" by blast
  show ?case using Cons.IH [OF 1 2 3] by simp
qed

lemma registryInv_constructor:
  assumes "constructor cfg closed storage = Inr s"
  shows "registryInv s" and "closuresOf s = {}"
proof -
  from assms have f: "activePaymentWindows s = []" "settlements s = []" "pollers s = []" "deadlines s = []"
    by (auto simp: constructor_def split: option.splits if_splits)
  show "closuresOf s = {}" by (simp add: closuresOf_def f)
  then show "registryInv s" unfolding registryInv_def f by (intro rinvI) simp_all
qed

lemma attempts_le_one: "distinct (map fst L) \<Longrightarrow> length (filter (\<lambda>x. fst x = p) L) \<le> 1"
  by (induction L) (auto simp: filter_empty_conv rev_image_eqI)

lemma mapHas_mapDelete [simp]: "\<not> mapHas (mapDelete k m) k"
  by (auto simp: mapHas_def mapDelete_def)

lemma settlementOf_first_call:
  assumes "settlements s' = settlements s @ [(p, x)]" "settlementOf s p = None"
  shows "settlementOf s' p = Some x"
  using assms by (simp add: settlementOf_def map_add_def)

lemma map_of_broadcast:
  "kv \<in> set m \<Longrightarrow> map_of (map (\<lambda>kv. (g kv, v)) m) (g kv) = Some v"
  by (induction m) auto

lemma settlementOf_broadcast:
  assumes "settlements s' = settlements s @ map (\<lambda>kv. (g kv, v)) m"
    and "kv \<in> set m" and "settlementOf s (g kv) = None"
  shows "settlementOf s' (g kv) = Some v"
  using assms map_of_broadcast [of kv m g v] by (simp add: settlementOf_def map_add_def)

lemma pollers_checkClosed:
  "set (pollers (checkClosed c s)) \<subseteq> set (pollers s) - {c} \<union> (if cPopup c \<in> closedWindows s then {} else set (pollers s))"
proof (cases "cPopup c \<in> closedWindows s")
  case False
  then show ?thesis by (simp add: checkClosed_open)
next
  case closed: True
  show ?thesis
  proof (cases "mapHas (activePaymentWindows s) (cPaymentId c)")
    case False
    show ?thesis using closed
      by (auto simp: checkClosed_absent [OF closed False] clearInterval_def)
  next
    case True
    show ?thesis using closed by (auto simp: checkClosed_settles [OF closed True])
  qed
qed

lemma nextPromise_checkClosed [simp]: "nextPromise (checkClosed c s) = nextPromise s"
proof (cases "cPopup c \<in> closedWindows s")
  case False
  then show ?thesis by (simp add: checkClosed_open)
next
  case closed: True
  show ?thesis
  proof (cases "mapHas (activePaymentWindows s) (cPaymentId c)")
    case False
    show ?thesis by (simp add: checkClosed_absent [OF closed False] clearInterval_def)
  next
    case True
    show ?thesis by (simp add: checkClosed_settles [OF closed True])
  qed
qed

lemma pollers_deadlineTimeout: "set (pollers (deadlineTimeout c s)) \<subseteq> set (pollers s)"
proof (cases "mapHas (activePaymentWindows s) (cPaymentId c)")
  case False
  then show ?thesis by (simp add: deadlineTimeout_absent)
next
  case True
  show ?thesis by (auto simp: deadlineTimeout_settles [OF True])
qed

lemma nextPromise_deadlineTimeout [simp]: "nextPromise (deadlineTimeout c s) = nextPromise s"
proof (cases "mapHas (activePaymentWindows s) (cPaymentId c)")
  case False
  then show ?thesis by (simp add: deadlineTimeout_absent)
next
  case True
  show ?thesis by (simp add: deadlineTimeout_settles [OF True])
qed

lemma timers_handlers:
  "pollers (stateOf (handlePaymentSuccess beh d s)) = pollers s"
  "pollers (stateOf (handlePaymentError beh d s)) = pollers s"
  "pollers (stateOf (handlePaymentCancel beh d s)) = pollers s"
  "nextPromise (stateOf (handlePaymentSuccess beh d s)) = nextPromise s"
  "nextPromise (stateOf (handlePaymentError beh d s)) = nextPromise s"
  "nextPromise (stateOf (handlePaymentCancel beh d s)) = nextPromise s"
  by (cases d; simp add: handlePaymentSuccess_Obj handlePaymentSuccess_noObj
        handlePaymentError_Obj handlePaymentError_noObj handlePaymentCancel_closed)+

lemma timers_messageHandler:
  "pollers (stateOf (messageHandler beh ev s)) = pollers s"
  "nextPromise (stateOf (messageHandler beh ev s)) = nextPromise s"
  by (simp_all add: messageHandler_def Let_def timers_handlers)

lemma unscheduled_step:
  assumes "c \<notin> set (pollers s)" "cPromise c < nextPromise s"
  shows "c \<notin> set (pollers (step beh a s)) \<and> cPromise c < nextPromise (step beh a s)"
proof (cases a)
  case (Open paymentUrl popup paymentId now)
  then show ?thesis using assms
    by (cases popup) (auto simp: openPaymentPopup_def callReject_def Let_def)
next
  case (Tick c')
  then show ?thesis using assms pollers_checkClosed [of c' s] by (auto split: if_splits)
next
  case (Deadline c')
  then show ?thesis
    using assms pollers_deadlineTimeout [of c' "s\<lparr>deadlines := remove1 c' (deadlines s)\<rparr>"]
    by auto
next
  case (Message ev)
  then show ?thesis using assms by (simp add: timers_messageHandler)
next
  case (On ev cb)
  then show ?thesis using assms by (simp add: on_def)
next
  case (Off ev cb)
  then show ?thesis using assms by (simp add: off_def)
next
  case CloseAll
  then show ?thesis using assms by (simp add: closeAllPaymentWindows_def Let_def)
next
  case Destroy
  then show ?thesis using assms by (simp add: destroy_def closeAllPaymentWindows_def Let_def)
next
  case (UserCloses w)
  then show ?thesis using assms by (simp add: windowClose_def)
next
  case (StorageSet k v)
  then show ?thesis using assms by (simp add: setItem_def)
qed

lemma unscheduled_run:
  assumes "c \<notin> set (pollers s)" "cPromise c < nextPromise s"
  shows "c \<notin> set (pollers (run beh as s))"
  using assms
proof (induction as arbitrary: s)
  case Nil
  then show ?case by simp
next
  case (Cons a as)
  from unscheduled_step [OF Cons.prems, of beh a] Cons.IH show ?case by simp
qed

lemma settlements_messageHandler_empty:
  assumes "activePaymentWindows s = []"
  shows "settlements (stateOf (messageHandler beh ev s)) = settlements s"
proof -
  have "settlements (stateOf (handlePaymentSuccess beh d s)) = settlements s"
       "settlements (stateOf (handlePaymentError beh d s)) = settlements s"
       "settlements (stateOf (handlePaymentCancel beh d s)) = settlements s" for d
    using assms
    by (cases d; simp add: handlePaymentSuccess_Obj handlePaymentSuccess_noObj
          handlePaymentError_Obj handlePaymentError_noObj handlePaymentCancel_closed)+
  then show ?thesis by (simp add: messageHandler_def Let_def)
qed

lemma constructor_example: "constructor (Some exampleConfig) {} [] = Inr newSdk"
  by (simp add: constructor_def exampleConfig_def newSdk_def startsWith_def)

lemma onePending_eq:
  "onePending = newSdk
     \<lparr>nextPromise := 1,
      activePaymentWindows :=
        [(''payment_1000_k3j9x2m1q'',
          \<lparr>window = 7, resolve = 0, reject = 0, url = ''https://venepagos.com.ve/pay/abc'',
           timestamp = 1000\<rparr>)],
      pollers := [session1], deadlines := [session1]\<rparr>"
  by (simp add: onePending_def openPaymentPopup_def newSdk_def session1_def Let_def)

lemma twoPending_eq:
  "twoPending = newSdk
     \<lparr>nextPromise := 2,
      activePaymentWindows :=
        [(''payment_1000_k3j9x2m1q'',
          \<lparr>window = 7, resolve = 0, reject = 0, url = ''https://venepagos.com.ve/pay/abc'',
           timestamp = 1000\<rparr>),
         (''payment_2000_p8w5z0c4d'',
          \<lparr>window = 8, resolve = 1, reject = 1, url = ''https://venepagos.com.ve/pay/def'',
           timestamp = 2000\<rparr>)],
      pollers := [session1, session2], deadlines := [session1, session2]\<rparr>"
  by (simp add: twoPending_def onePending_eq openPaymentPopup_def newSdk_def session1_def
        session2_def Let_def)

lemma dupSubs_eq:
  "dupSubs = newSdk
     \<lparr>eventListeners :=
        [\<lparr>event = ''success'', callback = JFunction 1\<rparr>,
         \<lparr>event = ''success'', callback = JFunction 2\<rparr>,
         \<lparr>event = ''success'', callback = JFunction 1\<rparr>]\<rparr>"
  by (simp add: dupSubs_def on_def newSdk_def)

lemma venepagos_origin: "str_includes ''https://venepagos.com.ve'' ''venepagos''"
  by (simp add: startsWith_def)

section \<open>The claims\<close>

subsection \<open>C1: settlement is one-shot\<close>

text \<open>
  C1. Settlement of a session is one-shot. Start from a freshly constructed SDK and let
  any sequence of event-loop turns happen (windows opened, poll ticks, deadline timers,
  notifications, teardown, in any order), the generated payment identifiers being
  pairwise different. Then no promise ever has more than one call of its
  \<^verbatim>\<open>resolve\<close>/\<^verbatim>\<open>reject\<close> functions. Moreover, in any state: a deadline timer or a
  poll tick for an identifier that is absent from the registry settles nothing and leaves
  registry and storage alone, and a notification that finds the registry empty settles
  nothing; and once the deadline timer, or a poll tick that saw the window closed, has
  run, the identifier is absent from the registry, so that every later attempt is such
  a no-op.
\<close>

theorem settlement_one_shot:
  assumes "constructor cfg closed storage = Inr s0" and "distinct (openedIds as)"
  shows "attempts (run beh as s0) p \<le> 1
       \<and> (\<not> mapHas (activePaymentWindows s) (cPaymentId c) \<longrightarrow>
            deadlineTimeout c s = s
          \<and> settlements (checkClosed c s) = settlements s
          \<and> activePaymentWindows (checkClosed c s) = activePaymentWindows s
          \<and> localStorage (checkClosed c s) = localStorage s)
       \<and> \<not> mapHas (activePaymentWindows (deadlineTimeout c s)) (cPaymentId c)
       \<and> (cPopup c \<in> closedWindows s \<longrightarrow>
            \<not> mapHas (activePaymentWindows (checkClosed c s)) (cPaymentId c))
       \<and> (activePaymentWindows s = [] \<longrightarrow>
            settlements (stateOf (messageHandler beh ev s)) = settlements s)"
proof -
  have "registryInv (run beh as s0)"
    using registryInv_constructor [OF assms(1)] assms(2) by (intro registryInv_run) simp_all
  then have "distinct (map fst (settlements (run beh as s0)))"
    unfolding registryInv_def by (rule rinv_once)
  then have 1: "attempts (run beh as s0) p \<le> 1"
    unfolding attempts_def by (rule attempts_le_one)
  have 2: "deadlineTimeout c s = s \<and> settlements (checkClosed c s) = settlements s
         \<and> activePaymentWindows (checkClosed c s) = activePaymentWindows s
         \<and> localStorage (checkClosed c s) = localStorage s"
    if absent: "\<not> mapHas (activePaymentWindows s) (cPaymentId c)"
  proof (cases "cPopup c \<in> closedWindows s")
    case True
    show ?thesis
      by (simp add: deadlineTimeout_absent [OF absent] checkClosed_absent [OF True absent]
            clearInterval_def)
  next
    case False
    then show ?thesis by (simp add: deadlineTimeout_absent [OF absent] checkClosed_open)
  qed
  have 3: "\<not> mapHas (activePaymentWindows (deadlineTimeout c s)) (cPaymentId c)"
  proof (cases "mapHas (activePaymentWindows s) (cPaymentId c)")
    case True
    show ?thesis by (simp add: deadlineTimeout_settles [OF True])
  next
    case False
    then show ?thesis by (simp add: deadlineTimeout_absent)
  qed
  have 4: "\<not> mapHas (activePaymentWindows (checkClosed c s)) (cPaymentId c)"
    if closed: "cPopup c \<in> closedWindows s"
  proof (cases "mapHas (activePaymentWindows s) (cPaymentId c)")
    case True
    show ?thesis by (simp add: checkClosed_settles [OF closed True])
  next
    case False
    then show ?thesis by (simp add: checkClosed_absent [OF closed False] clearInterval_def)
  qed
  from 1 2 3 4 settlements_messageHandler_empty [of s beh ev] show ?thesis by blast
qed

theorem settlement_one_shot_witness:
  "constructor (Some exampleConfig) {} [] = Inr newSdk
   \<and> distinct (openedIds exampleTrace)
   \<and> attempts (run quiet exampleTrace newSdk) 0 \<le> 1
   \<and> settlements (run quiet exampleTrace newSdk)
       = [(0, Rejected (Error userClosedMsg)),
          (1, Resolved \<lparr>success = True, reference = Some ''R123'', status = ''completed'',
                        closedManually = None, data = Some (Obj (Some ''R123'') None)\<rparr>)]
   \<and> \<not> mapHas (activePaymentWindows (windowClose 7 newSdk)) (cPaymentId session1)
   \<and> cPopup session1 \<in> closedWindows (windowClose 7 newSdk)
   \<and> deadlineTimeout session1 (windowClose 7 newSdk) = windowClose 7 newSdk
   \<and> settlements (checkClosed session1 (windowClose 7 newSdk)) = []"
proof -
  have d: "distinct (openedIds exampleTrace)" by (simp add: exampleTrace_def)
  have a: "\<not> mapHas (activePaymentWindows (windowClose 7 newSdk)) (cPaymentId session1)"
    by (simp add: mapHas_def windowClose_def newSdk_def)
  have w: "cPopup session1 \<in> closedWindows (windowClose 7 newSdk)"
    by (simp add: windowClose_def session1_def)
  have e: "settlements (windowClose 7 newSdk) = []"
    by (simp add: windowClose_def newSdk_def)
  have r: "settlements (run quiet exampleTrace newSdk)
       = [(0, Rejected (Error userClosedMsg)),
          (1, Resolved \<lparr>success = True, reference = Some ''R123'', status = ''completed'',
                        closedManually = None, data = Some (Obj (Some ''R123'') None)\<rparr>)]"
    by code_simp
  from settlement_one_shot [OF constructor_example d, of quiet 0 "windowClose 7 newSdk" session1]
    constructor_example d a w e r
  show ?thesis by simp
qed

subsection \<open>C2: teardown\<close>

text \<open>
  C2, as stated, fails: \<^verbatim>\<open>closeAllPaymentWindows\<close> and \<^verbatim>\<open>destroy\<close> call neither
  \<^verbatim>\<open>resolve\<close> nor \<^verbatim>\<open>reject\<close>. With one window open, the promise of that session
  has no settlement after either teardown, and the poll tick and the deadline timer that
  follow find the registry empty and settle nothing either.
\<close>

theorem teardown_leaves_promise_pending:
  "mapGet (activePaymentWindows onePending) ''payment_1000_k3j9x2m1q''
     = Some \<lparr>window = 7, resolve = 0, reject = 0, url = ''https://venepagos.com.ve/pay/abc'',
             timestamp = 1000\<rparr>
   \<and> settlementOf (closeAllPaymentWindows onePending) 0 = None
   \<and> settlementOf (destroy onePending) 0 = None
   \<and> settlementOf (run quiet [CloseAll, Tick session1, Deadline session1] onePending) 0 = None"
  by (simp add: onePending_eq newSdk_def session1_def mapGet_def settlementOf_def
        closeAllPaymentWindows_def destroy_def windowClose_def checkClosed_def clearInterval_def
        deadlineTimeout_def mapHas_def Let_def)

text \<open>
  C2, amended. After \<^verbatim>\<open>closeAllPaymentWindows\<close> (or \<^verbatim>\<open>destroy\<close>), the window of
  every session that was in the registry is closed and the registry is empty;
  \<^verbatim>\<open>destroy\<close> also empties the subscriber list and detaches the message handler.
\<close>

theorem teardown_closes_and_clears:
  "(\<forall>kv \<in> set (activePaymentWindows s).
       window (snd kv) \<in> closedWindows (closeAllPaymentWindows s)
     \<and> window (snd kv) \<in> closedWindows (destroy s))
   \<and> activePaymentWindows (closeAllPaymentWindows s) = []
   \<and> activePaymentWindows (destroy s) = []
   \<and> eventListeners (destroy s) = []
   \<and> \<not> messageHandlerAttached (destroy s)"
  by (auto simp: closeAllPaymentWindows_def destroy_def Let_def closedWindows_forEachClose)

theorem teardown_closes_and_clears_witness:
  "(''payment_2000_p8w5z0c4d'',
      \<lparr>window = 8, resolve = 1, reject = 1, url = ''https://venepagos.com.ve/pay/def'',
       timestamp = 2000\<rparr>) \<in> set (activePaymentWindows twoPending)
   \<and> 8 \<notin> closedWindows twoPending
   \<and> 8 \<in> closedWindows (closeAllPaymentWindows twoPending)
   \<and> 8 \<in> closedWindows (destroy twoPending)
   \<and> activePaymentWindows (closeAllPaymentWindows twoPending) = []"
proof -
  have m: "(''payment_2000_p8w5z0c4d'',
      \<lparr>window = 8, resolve = 1, reject = 1, url = ''https://venepagos.com.ve/pay/def'',
       timestamp = 2000\<rparr>) \<in> set (activePaymentWindows twoPending)"
    by (simp add: twoPending_eq)
  have o: "8 \<notin> closedWindows twoPending" by (simp add: twoPending_eq newSdk_def)
  from teardown_closes_and_clears [of twoPending] m o show ?thesis by fastforce
qed

subsection \<open>C3: off\<close>

text \<open>
  C3, as stated, fails: \<^verbatim>\<open>off\<close> filters the list, so it removes every subscription
  with the given event type and handler, not only the first. With function 1 subscribed
  twice to \<^verbatim>\<open>success\<close>, one call of \<^verbatim>\<open>off\<close> leaves no subscription of function 1,
  where removing the first match would leave one.
\<close>

theorem off_removes_every_duplicate:
  "count_list (eventListeners dupSubs) \<lparr>event = ''success'', callback = JFunction 1\<rparr> = 2
   \<and> eventListeners (off ''success'' (JFunction 1) dupSubs)
       = [\<lparr>event = ''success'', callback = JFunction 2\<rparr>]
   \<and> eventListeners (off_first_match ''success'' (JFunction 1) dupSubs)
       = [\<lparr>event = ''success'', callback = JFunction 2\<rparr>,
          \<lparr>event = ''success'', callback = JFunction 1\<rparr>]"
  by (simp add: dupSubs_eq off_def off_first_match_def newSdk_def)

text \<open>
  C3, amended. \<^verbatim>\<open>off(eventType, handler)\<close> removes every subscription with that
  event type and handler and keeps all the others, in their order; a subsequent publish
  of that event type calls the remaining subscribers of the type and never the removed
  handler.
\<close>

theorem off_removes_all_matches:
  "eventListeners (off ev cb s)
     = filter (\<lambda>l. l \<noteq> \<lparr>event = ev, callback = cb\<rparr>) (eventListeners s)
   \<and> count_list (eventListeners (off ev cb s)) \<lparr>event = ev, callback = cb\<rparr> = 0
   \<and> invoked (stateOf (emitEvent beh ev d (off ev cb s)))
       = invoked s @ map (\<lambda>f. (f, d))
           (calledFunctions (filter (\<lambda>l. event l = ev \<and> callback l \<noteq> cb) (eventListeners s)))
   \<and> (\<forall>f. cb = JFunction f \<longrightarrow> f \<notin> set (calledFunctions (subscribersOf ev (off ev cb s))))"
proof -
  have neq: "(l \<noteq> \<lparr>event = ev, callback = cb\<rparr>) = (\<not> (event l = ev \<and> callback l = cb))"
    for l :: listener
    by (cases l) auto
  have 1: "eventListeners (off ev cb s)
     = filter (\<lambda>l. l \<noteq> \<lparr>event = ev, callback = cb\<rparr>) (eventListeners s)"
    by (simp add: off_def neq)
  have 2: "count_list (eventListeners (off ev cb s)) \<lparr>event = ev, callback = cb\<rparr> = 0"
    unfolding 1 by (simp add: count_list_0_iff)
  have sub: "subscribersOf ev (off ev cb s)
     = filter (\<lambda>l. event l = ev \<and> callback l \<noteq> cb) (eventListeners s)"
    by (auto simp: subscribersOf_def off_def intro: filter_cong)
  have 3: "invoked (stateOf (emitEvent beh ev d (off ev cb s)))
       = invoked s @ map (\<lambda>f. (f, d))
           (calledFunctions (filter (\<lambda>l. event l = ev \<and> callback l \<noteq> cb) (eventListeners s)))"
    by (simp add: emitEvent_returns afterEmit_def sub) (simp add: off_def)
  have 4: "f \<notin> set (calledFunctions ls)" if "\<forall>l \<in> set ls. callback l \<noteq> JFunction f" for f ls
    using that by (induction ls) (auto split: jsval.splits)
  have 5: "f \<notin> set (calledFunctions (subscribersOf ev (off ev cb s)))" if "cb = JFunction f" for f
    unfolding sub using that by (intro 4) simp
  from 1 2 3 5 show ?thesis by blast
qed

theorem off_removes_all_matches_witness:
  "JFunction 1 = JFunction 1
   \<and> eventListeners (off ''success'' (JFunction 1) dupSubs)
       = [\<lparr>event = ''success'', callback = JFunction 2\<rparr>]
   \<and> invoked (stateOf (emitEvent quiet ''success'' Null (off ''success'' (JFunction 1) dupSubs)))
       = [(2, Null)]
   \<and> 1 \<notin> set (calledFunctions (subscribersOf ''success'' (off ''success'' (JFunction 1) dupSubs)))"
  using off_removes_all_matches [of "''success''" "JFunction 1" dupSubs quiet Null]
  by (simp add: dupSubs_eq newSdk_def)

subsection \<open>C4: a notification settles every pending session\<close>

text \<open>
  C4. A notification from a matching origin whose body carries a recognized type and a
  data object is broadcast: whatever the registry holds, the handler returns, the
  registry is empty afterwards, and for every entry that was registered one call is
  made, in registry order: \<^verbatim>\<open>resolve\<close> with a completed result carrying the
  reference of the notification for \<^verbatim>\<open>PAYMENT_SUCCESS\<close>, \<^verbatim>\<open>reject\<close> for
  \<^verbatim>\<open>PAYMENT_ERROR\<close> and \<^verbatim>\<open>PAYMENT_CANCEL\<close>. A promise that had no settlement
  takes that value. Before that, the subscribers of \<^verbatim>\<open>success\<close>, \<^verbatim>\<open>error\<close> or
  \<^verbatim>\<open>cancel\<close> are called with the data.
\<close>

theorem notification_settles_all:
  assumes "str_includes (origin ev) ''venepagos''"
    and "mdata ev = Some b" and "bdata b = Obj r e"
  shows "(btype b = Some ''PAYMENT_SUCCESS'' \<longrightarrow>
           (\<exists>s'. messageHandler beh ev s = Returned s'
              \<and> activePaymentWindows s' = []
              \<and> settlements s' = settlements s @
                   map (\<lambda>kv. (resolve (snd kv),
                          Resolved \<lparr>success = True, reference = r, status = ''completed'',
                                    closedManually = None, data = Some (Obj r e)\<rparr>))
                       (activePaymentWindows s)
              \<and> (\<forall>kv \<in> set (activePaymentWindows s).
                    settlementOf s (resolve (snd kv)) = None \<longrightarrow>
                    settlementOf s' (resolve (snd kv))
                      = Some (Resolved \<lparr>success = True, reference = r, status = ''completed'',
                                        closedManually = None, data = Some (Obj r e)\<rparr>))
              \<and> invoked s' = invoked s @
                   map (\<lambda>f. (f, Obj r e)) (calledFunctions (subscribersOf ''success'' s))))
       \<and> (btype b = Some ''PAYMENT_ERROR'' \<longrightarrow>
           (\<exists>s'. messageHandler beh ev s = Returned s'
              \<and> activePaymentWindows s' = []
              \<and> settlements s' = settlements s @
                   map (\<lambda>kv. (reject (snd kv),
                          Rejected (Error (if truthy e then the e else paymentErrorMsg))))
                       (activePaymentWindows s)
              \<and> (\<forall>kv \<in> set (activePaymentWindows s).
                    settlementOf s (reject (snd kv)) = None \<longrightarrow>
                    settlementOf s' (reject (snd kv))
                      = Some (Rejected (Error (if truthy e then the e else paymentErrorMsg))))
              \<and> invoked s' = invoked s @
                   map (\<lambda>f. (f, Obj r e)) (calledFunctions (subscribersOf ''error'' s))))
       \<and> (btype b = Some ''PAYMENT_CANCEL'' \<longrightarrow>
           (\<exists>s'. messageHandler beh ev s = Returned s'
              \<and> activePaymentWindows s' = []
              \<and> settlements s' = settlements s @
                   map (\<lambda>kv. (reject (snd kv), Rejected (Error cancelledMsg)))
                       (activePaymentWindows s)
              \<and> (\<forall>kv \<in> set (activePaymentWindows s).
                    settlementOf s (reject (snd kv)) = None \<longrightarrow>
                    settlementOf s' (reject (snd kv)) = Some (Rejected (Error cancelledMsg)))
              \<and> invoked s' = invoked s @
                   map (\<lambda>f. (f, Obj r e)) (calledFunctions (subscribersOf ''cancel'' s))))"
proof (intro conjI impI)
  assume t: "btype b = Some ''PAYMENT_SUCCESS''"
  let ?v = "Resolved \<lparr>success = True, reference = r, status = ''completed'',
                      closedManually = None, data = Some (Obj r e)\<rparr>"
  let ?s' = "settleAll (\<lambda>kv. (resolve (snd kv), Resolved (completedWith (Obj r e))))
               (activePaymentWindows s) (afterEmit beh ''success'' (Obj r e) s)"
  have v: "Resolved (completedWith (Obj r e)) = ?v" by (simp add: completedWith_def)
  have h: "messageHandler beh ev s = Returned ?s'"
    using assms t by (simp add: messageHandler_def handlePaymentSuccess_Obj)
  have reg: "activePaymentWindows ?s' = []"
    using settleAll_whole(1) [of _ "afterEmit beh ''success'' (Obj r e) s"] by simp
  have log: "settlements ?s' = settlements s @ map (\<lambda>kv. (resolve (snd kv), ?v)) (activePaymentWindows s)"
    by (simp add: v)
  have inv: "invoked ?s' = invoked s @ map (\<lambda>f. (f, Obj r e)) (calledFunctions (subscribersOf ''success'' s))"
    by (simp add: afterEmit_def)
  have each: "\<forall>kv \<in> set (activePaymentWindows s).
      settlementOf s (resolve (snd kv)) = None \<longrightarrow> settlementOf ?s' (resolve (snd kv)) = Some ?v"
    using settlementOf_broadcast [OF log] by blast
  from h reg log each inv
  show "\<exists>s'. messageHandler beh ev s = Returned s'
          \<and> activePaymentWindows s' = []
          \<and> settlements s' = settlements s @ map (\<lambda>kv. (resolve (snd kv), ?v)) (activePaymentWindows s)
          \<and> (\<forall>kv \<in> set (activePaymentWindows s).
                settlementOf s (resolve (snd kv)) = None \<longrightarrow>
                settlementOf s' (resolve (snd kv)) = Some ?v)
          \<and> invoked s' = invoked s @
               map (\<lambda>f. (f, Obj r e)) (calledFunctions (subscribersOf ''success'' s))"
    by blast
next
  assume t: "btype b = Some ''PAYMENT_ERROR''"
  let ?v = "Rejected (Error (if truthy e then the e else paymentErrorMsg))"
  let ?s' = "settleAll (\<lambda>kv. (reject (snd kv), Rejected (errorOf (Obj r e))))
               (activePaymentWindows s) (afterEmit beh ''error'' (Obj r e) s)"
  have v: "Rejected (errorOf (Obj r e)) = ?v" by (simp add: errorOf_def)
  have h: "messageHandler beh ev s = Returned ?s'"
    using assms t by (simp add: messageHandler_def handlePaymentError_Obj)
  have reg: "activePaymentWindows ?s' = []"
    using settleAll_whole(1) [of _ "afterEmit beh ''error'' (Obj r e) s"] by simp
  have log: "settlements ?s' = settlements s @ map (\<lambda>kv. (reject (snd kv), ?v)) (activePaymentWindows s)"
    by (simp add: v)
  have inv: "invoked ?s' = invoked s @ map (\<lambda>f. (f, Obj r e)) (calledFunctions (subscribersOf ''error'' s))"
    by (simp add: afterEmit_def)
  have each: "\<forall>kv \<in> set (activePaymentWindows s).
      settlementOf s (reject (snd kv)) = None \<longrightarrow> settlementOf ?s' (reject (snd kv)) = Some ?v"
    using settlementOf_broadcast [OF log] by blast
  from h reg log each inv
  show "\<exists>s'. messageHandler beh ev s = Returned s'
          \<and> activePaymentWindows s' = []
          \<and> settlements s' = settlements s @ map (\<lambda>kv. (reject (snd kv), ?v)) (activePaymentWindows s)
          \<and> (\<forall>kv \<in> set (activePaymentWindows s).
                settlementOf s (reject (snd kv)) = None \<longrightarrow>
                settlementOf s' (reject (snd kv)) = Some ?v)
          \<and> invoked s' = invoked s @
               map (\<lambda>f. (f, Obj r e)) (calledFunctions (subscribersOf ''error'' s))"
    by blast
next
  assume t: "btype b = Some ''PAYMENT_CANCEL''"
  let ?v = "Rejected (Error cancelledMsg)"
  let ?s' = "settleAll (\<lambda>kv. (reject (snd kv), ?v))
               (activePaymentWindows s) (afterEmit beh ''cancel'' (Obj r e) s)"
  have h: "messageHandler beh ev s = Returned ?s'"
    using assms t by (simp add: messageHandler_def handlePaymentCancel_closed)
  have reg: "activePaymentWindows ?s' = []"
    using settleAll_whole(1) [of _ "afterEmit beh ''cancel'' (Obj r e) s"] by simp
  have log: "settlements ?s' = settlements s @ map (\<lambda>kv. (reject (snd kv), ?v)) (activePaymentWindows s)"
    by simp
  have inv: "invoked ?s' = invoked s @ map (\<lambda>f. (f, Obj r e)) (calledFunctions (subscribersOf ''cancel'' s))"
    by (simp add: afterEmit_def)
  have each: "\<forall>kv \<in> set (activePaymentWindows s).
      settlementOf s (reject (snd kv)) = None \<longrightarrow> settlementOf ?s' (reject (snd kv)) = Some ?v"
    using settlementOf_broadcast [OF log] by blast
  from h reg log each inv
  show "\<exists>s'. messageHandler beh ev s = Returned s'
          \<and> activePaymentWindows s' = []
          \<and> settlements s' = settlements s @ map (\<lambda>kv. (reject (snd kv), ?v)) (activePaymentWindows s)
          \<and> (\<forall>kv \<in> set (activePaymentWindows s).
                settlementOf s (reject (snd kv)) = None \<longrightarrow>
                settlementOf s' (reject (snd kv)) = Some ?v)
          \<and> invoked s' = invoked s @
               map (\<lambda>f. (f, Obj r e)) (calledFunctions (subscribersOf ''cancel'' s))"
    by blast
qed

theorem notification_settles_all_witness:
  "str_includes ''https://venepagos.com.ve'' ''venepagos''
   \<and> settlementOf twoPending 0 = None \<and> settlementOf twoPending 1 = None
   \<and> activePaymentWindows
         (stateOf (messageHandler quiet
            (notification ''https://venepagos.com.ve'' ''PAYMENT_SUCCESS'' (Obj (Some ''R123'') None))
            twoPending)) = []
   \<and> settlements
         (stateOf (messageHandler quiet
            (notification ''https://venepagos.com.ve'' ''PAYMENT_SUCCESS'' (Obj (Some ''R123'') None))
            twoPending))
       = [(0, Resolved \<lparr>success = True, reference = Some ''R123'', status = ''completed'',
                        closedManually = None, data = Some (Obj (Some ''R123'') None)\<rparr>),
          (1, Resolved \<lparr>success = True, reference = Some ''R123'', status = ''completed'',
                        closedManually = None, data = Some (Obj (Some ''R123'') None)\<rparr>)]
   \<and> settlements
         (stateOf (messageHandler quiet
            (notification ''https://venepagos.com.ve'' ''PAYMENT_ERROR'' (Obj None (Some ''declined'')))
            twoPending))
       = [(0, Rejected (Error ''declined'')), (1, Rejected (Error ''declined''))]
   \<and> settlements
         (stateOf (messageHandler quiet
            (notification ''https://venepagos.com.ve'' ''PAYMENT_CANCEL'' (Obj None None))
            twoPending))
       = [(0, Rejected (Error cancelledMsg)), (1, Rejected (Error cancelledMsg))]"
proof -
  let ?ok = "notification ''https://venepagos.com.ve'' ''PAYMENT_SUCCESS'' (Obj (Some ''R123'') None)"
  let ?err = "notification ''https://venepagos.com.ve'' ''PAYMENT_ERROR'' (Obj None (Some ''declined''))"
  let ?can = "notification ''https://venepagos.com.ve'' ''PAYMENT_CANCEL'' (Obj None None)"
  have o: "str_includes (origin (notification ''https://venepagos.com.ve'' t d)) ''venepagos''" for t d
    by (simp add: notification_def startsWith_def)
  have m: "mdata (notification ''https://venepagos.com.ve'' t d) = Some \<lparr>btype = Some t, bdata = d\<rparr>" for t d
    by (simp add: notification_def)
  have p: "settlementOf twoPending 0 = None" "settlementOf twoPending 1 = None"
    by (simp_all add: settlementOf_def twoPending_eq newSdk_def)
  have r: "map (\<lambda>kv. (resolve (snd kv), v)) (activePaymentWindows twoPending) = [(0, v), (1, v)]"
          "map (\<lambda>kv. (reject (snd kv), v)) (activePaymentWindows twoPending) = [(0, v), (1, v)]"
          "settlements twoPending = []" for v
    by (simp_all add: twoPending_eq newSdk_def)
  from notification_settles_all [where ev = ?ok and b = "\<lparr>btype = Some ''PAYMENT_SUCCESS'', bdata = Obj (Some ''R123'') None\<rparr>"
         and r = "Some ''R123''" and e = None and beh = quiet and s = twoPending, OF o m]
  have 1: "activePaymentWindows (stateOf (messageHandler quiet ?ok twoPending)) = []
     \<and> settlements (stateOf (messageHandler quiet ?ok twoPending))
       = [(0, Resolved \<lparr>success = True, reference = Some ''R123'', status = ''completed'',
                        closedManually = None, data = Some (Obj (Some ''R123'') None)\<rparr>),
          (1, Resolved \<lparr>success = True, reference = Some ''R123'', status = ''completed'',
                        closedManually = None, data = Some (Obj (Some ''R123'') None)\<rparr>)]"
    by (auto simp: r)
  from notification_settles_all [where ev = ?err and b = "\<lparr>btype = Some ''PAYMENT_ERROR'', bdata = Obj None (Some ''declined'')\<rparr>"
         and r = None and e = "Some ''declined''" and beh = quiet and s = twoPending, OF o m]
  have 2: "settlements (stateOf (messageHandler quiet ?err twoPending))
       = [(0, Rejected (Error ''declined'')), (1, Rejected (Error ''declined''))]"
    by (auto simp: r)
  from notification_settles_all [where ev = ?can and b = "\<lparr>btype = Some ''PAYMENT_CANCEL'', bdata = Obj None None\<rparr>"
         and r = None and e = None and beh = quiet and s = twoPending, OF o m]
  have 3: "settlements (stateOf (messageHandler quiet ?can twoPending))
       = [(0, Rejected (Error cancelledMsg)), (1, Rejected (Error cancelledMsg))]"
    by (auto simp: r)
  from venepagos_origin p 1 2 3 show ?thesis by blast
qed

subsection \<open>C5: notifications from other origins\<close>

text \<open>
  C5. A message whose origin does not contain \<^verbatim>\<open>venepagos\<close> is ignored: the handler
  returns at once and the whole state is as before, so the registry, the settlements
  of the promises, the subscriber list and the log of subscriber calls are unchanged.
\<close>

theorem foreign_origin_ignored:
  assumes "\<not> str_includes (origin ev) ''venepagos''"
  shows "messageHandler beh ev s = Returned s \<and> step beh (Message ev) s = s"
  using assms by (simp add: messageHandler_def)

theorem foreign_origin_ignored_witness:
  "\<not> str_includes (origin (notification ''https://evil.example'' ''PAYMENT_SUCCESS'' (Obj (Some ''R1'') None)))
       ''venepagos''
   \<and> messageHandler firstThrows
        (notification ''https://evil.example'' ''PAYMENT_SUCCESS'' (Obj (Some ''R1'') None)) twoPending
       = Returned twoPending"
proof -
  have "\<not> str_includes (origin (notification ''https://evil.example'' ''PAYMENT_SUCCESS'' (Obj (Some ''R1'') None)))
       ''venepagos''"
    by (simp add: notification_def startsWith_def)
  from this foreign_origin_ignored [OF this, of firstThrows twoPending] show ?thesis by simp
qed

subsection \<open>C6: a notification without data\<close>

text \<open>
  C6 does not hold of the code. With one session pending, a \<^verbatim>\<open>PAYMENT_SUCCESS\<close> or a
  \<^verbatim>\<open>PAYMENT_ERROR\<close> notification from the provider's origin whose body has no
  \<^verbatim>\<open>data\<close> member makes the handler throw a TypeError, at \<^verbatim>\<open>data.reference\<close> and
  \<^verbatim>\<open>data.error\<close>: the session stays registered and its promise unsettled. The same
  notification is tolerated when no session is pending, and \<^verbatim>\<open>PAYMENT_CANCEL\<close>, which
  does not read \<^verbatim>\<open>data\<close>, is tolerated always.
\<close>

theorem missing_data_throws:
  "messageHandler quiet (notification ''https://venepagos.com.ve'' ''PAYMENT_SUCCESS'' Undefined) onePending
     = Threw TypeError onePending
   \<and> messageHandler quiet (notification ''https://venepagos.com.ve'' ''PAYMENT_ERROR'' Undefined) onePending
     = Threw TypeError onePending
   \<and> mapHas (activePaymentWindows onePending) ''payment_1000_k3j9x2m1q''
   \<and> settlementOf onePending 0 = None
   \<and> messageHandler quiet (notification ''https://venepagos.com.ve'' ''PAYMENT_SUCCESS'' Undefined) newSdk
     = Returned newSdk
   \<and> settlements (stateOf (messageHandler quiet
        (notification ''https://venepagos.com.ve'' ''PAYMENT_CANCEL'' Undefined) onePending))
     = [(0, Rejected (Error cancelledMsg))]"
proof -
  have e: "afterEmit quiet t d onePending = onePending" "afterEmit quiet t d newSdk = newSdk" for t d
    by (simp_all add: afterEmit_def subscribersOf_def onePending_eq newSdk_def)
  have r: "activePaymentWindows onePending \<noteq> []" "activePaymentWindows newSdk = []"
    by (simp_all add: onePending_eq newSdk_def)
  have 1: "messageHandler quiet (notification ''https://venepagos.com.ve'' ''PAYMENT_SUCCESS'' Undefined) onePending
     = Threw TypeError onePending"
    by (simp add: messageHandler_def notification_def startsWith_def handlePaymentSuccess_noObj e r)
  have 2: "messageHandler quiet (notification ''https://venepagos.com.ve'' ''PAYMENT_ERROR'' Undefined) onePending
     = Threw TypeError onePending"
    by (simp add: messageHandler_def notification_def startsWith_def handlePaymentError_noObj e r)
  have 3: "mapHas (activePaymentWindows onePending) ''payment_1000_k3j9x2m1q''"
    by (simp add: mapHas_def onePending_eq)
  have 4: "settlementOf onePending 0 = None"
    by (simp add: settlementOf_def onePending_eq newSdk_def)
  have 5: "messageHandler quiet (notification ''https://venepagos.com.ve'' ''PAYMENT_SUCCESS'' Undefined) newSdk
     = Returned newSdk"
    by (simp add: messageHandler_def notification_def startsWith_def handlePaymentSuccess_noObj e r)
  have 6: "settlements (stateOf (messageHandler quiet
        (notification ''https://venepagos.com.ve'' ''PAYMENT_CANCEL'' Undefined) onePending))
     = [(0, Rejected (Error cancelledMsg))]"
    by (simp add: messageHandler_def notification_def startsWith_def handlePaymentCancel_closed)
       (simp add: onePending_eq newSdk_def)
  from 1 2 3 4 5 6 show ?thesis by blast
qed

subsection \<open>C7: the deadline timer\<close>

text \<open>
  C7. When the deadline timer of a session fires while the session is still registered,
  the handler stops the poll loop of the session, closes its window, removes the session
  (and no other) from the registry and calls \<^verbatim>\<open>reject\<close> with the timeout error, which
  is the value of the promise if nothing settled it before. From then on the poll loop of
  that session is no longer scheduled: a tick for it changes nothing, right after the
  deadline and after any further turns of the event loop. (The delay of 30 minutes is the
  browser's; the model has the order of events, not their times.)
\<close>

theorem deadline_times_out:
  assumes "c \<in> set (deadlines s)"
    and "mapHas (activePaymentWindows s) (cPaymentId c)"
    and "s' = step beh (Deadline c) s"
  shows "c \<notin> set (pollers s')
       \<and> cPopup c \<in> closedWindows s'
       \<and> \<not> mapHas (activePaymentWindows s') (cPaymentId c)
       \<and> activePaymentWindows s' = mapDelete (cPaymentId c) (activePaymentWindows s)
       \<and> settlements s' = settlements s @ [(cPromise c, Rejected (Error timeoutMsg))]
       \<and> (settlementOf s (cPromise c) = None \<longrightarrow>
            settlementOf s' (cPromise c) = Some (Rejected (Error timeoutMsg)))
       \<and> step beh (Tick c) s' = s'
       \<and> (cPromise c < nextPromise s \<longrightarrow>
            c \<notin> set (pollers (run beh as s'))
          \<and> step beh (Tick c) (run beh as s') = run beh as s')"
proof -
  let ?s = "s\<lparr>deadlines := remove1 c (deadlines s)\<rparr>"
  have s': "s' = deadlineTimeout c ?s" using assms(1,3) by simp
  have has: "mapHas (activePaymentWindows ?s) (cPaymentId c)" using assms(2) by simp
  note f = deadlineTimeout_settles [OF has, folded s']
  have 1: "c \<notin> set (pollers s')" by (simp add: f)
  have 2: "cPopup c \<in> closedWindows s'" by (simp add: f)
  have 3: "activePaymentWindows s' = mapDelete (cPaymentId c) (activePaymentWindows s)"
    by (simp add: f)
  have 4: "\<not> mapHas (activePaymentWindows s') (cPaymentId c)" by (simp add: 3)
  have 5: "settlements s' = settlements s @ [(cPromise c, Rejected (Error timeoutMsg))]"
    by (simp add: f)
  have 6: "settlementOf s (cPromise c) = None \<longrightarrow>
            settlementOf s' (cPromise c) = Some (Rejected (Error timeoutMsg))"
    using settlementOf_first_call [OF 5] by blast
  have 7: "step beh (Tick c) s' = s'" using 1 by simp
  have 8: "c \<notin> set (pollers (run beh as s')) \<and> step beh (Tick c) (run beh as s') = run beh as s'"
    if "cPromise c < nextPromise s"
  proof -
    have "cPromise c < nextPromise s'" using that by (simp add: f)
    from unscheduled_run [OF 1 this, of beh as] show ?thesis by simp
  qed
  from 1 2 3 4 5 6 7 8 show ?thesis by blast
qed

theorem deadline_times_out_witness:
  "session1 \<in> set (deadlines twoPending)
   \<and> mapHas (activePaymentWindows twoPending) (cPaymentId session1)
   \<and> settlementOf twoPending (cPromise session1) = None
   \<and> cPromise session1 < nextPromise twoPending
   \<and> 7 \<in> closedWindows (step quiet (Deadline session1) twoPending)
   \<and> map fst (activePaymentWindows (step quiet (Deadline session1) twoPending))
       = [''payment_2000_p8w5z0c4d'']
   \<and> settlementOf (step quiet (Deadline session1) twoPending) 0
       = Some (Rejected (Error timeoutMsg))
   \<and> session1 \<notin> set (pollers (run quiet [UserCloses 7, Tick session1, Tick session2]
                            (step quiet (Deadline session1) twoPending)))"
proof -
  have 1: "session1 \<in> set (deadlines twoPending)" by (simp add: twoPending_eq)
  have 2: "mapHas (activePaymentWindows twoPending) (cPaymentId session1)"
    by (simp add: twoPending_eq mapHas_def session1_def)
  have 3: "settlementOf twoPending (cPromise session1) = None"
    by (simp add: settlementOf_def twoPending_eq newSdk_def)
  have 4: "cPromise session1 < nextPromise twoPending"
    by (simp add: twoPending_eq session1_def)
  have 5: "map fst (mapDelete (cPaymentId session1) (activePaymentWindows twoPending))
       = [''payment_2000_p8w5z0c4d'']"
    by (simp add: twoPending_eq mapDelete_def session1_def)
  have 6: "cPopup session1 = 7" "cPromise session1 = 0" by (simp_all add: session1_def)
  from deadline_times_out [OF 1 2 refl, of quiet "[UserCloses 7, Tick session1, Tick session2]"]
    1 2 3 4 5 6
  show ?thesis by simp
qed

subsection \<open>C8: a window closed by the user\<close>

text \<open>
  C8. When a poll tick finds the window of a still registered session closed, the session
  is removed from the registry and the poll loop stops. The promise is rejected with the
  closed-by-user error exactly when the storage slot \<^verbatim>\<open>lastPaymentReference\<close> is empty,
  that is, when \<^verbatim>\<open>getItem\<close> gives \<^verbatim>\<open>null\<close> or the empty string (the test is
  \<^verbatim>\<open>if (savedReference)\<close>), and the storage is then left as it was. When the slot holds
  a reference, the promise is resolved with that reference, completed and
  \<^verbatim>\<open>closedManually\<close>, and the slot is cleared in the same turn.
\<close>

theorem manual_close_outcome:
  assumes "c \<in> set (pollers s)"
    and "cPopup c \<in> closedWindows s"
    and "mapHas (activePaymentWindows s) (cPaymentId c)"
    and "s' = step beh (Tick c) s"
  shows "(\<not> truthy (getItem s ''lastPaymentReference'') \<longrightarrow>
            settlements s' = settlements s @ [(cPromise c, Rejected (Error userClosedMsg))]
          \<and> localStorage s' = localStorage s)
       \<and> (truthy (getItem s ''lastPaymentReference'') \<longrightarrow>
            settlements s' = settlements s @
              [(cPromise c,
                Resolved \<lparr>success = True, reference = getItem s ''lastPaymentReference'',
                          status = ''completed'', closedManually = Some True, data = None\<rparr>)]
          \<and> getItem s' ''lastPaymentReference'' = None)
       \<and> (snd (last (settlements s')) = Rejected (Error userClosedMsg)
            \<longleftrightarrow> \<not> truthy (getItem s ''lastPaymentReference''))
       \<and> (settlementOf s (cPromise c) = None \<longrightarrow>
            settlementOf s' (cPromise c) = Some (snd (last (settlements s'))))
       \<and> \<not> mapHas (activePaymentWindows s') (cPaymentId c)
       \<and> c \<notin> set (pollers s')"
proof -
  have s': "s' = checkClosed c s" using assms(1,4) by simp
  note f = checkClosed_settles [OF assms(2,3), folded s']
  have log: "settlements s' = settlements s @ [(cPromise c, manualCloseOutcome s)]" by (rule f)
  have cleared: "map_of (filter (\<lambda>kv. fst kv \<noteq> k) m) k = None" for k :: string and m :: "(string \<times> string) list"
    by (induction m) auto
  have 1: "settlements s' = settlements s @ [(cPromise c, Rejected (Error userClosedMsg))]
          \<and> localStorage s' = localStorage s"
    if "\<not> truthy (getItem s ''lastPaymentReference'')"
    using that by (simp add: f manualCloseOutcome_def)
  have 2: "settlements s' = settlements s @
              [(cPromise c,
                Resolved \<lparr>success = True, reference = getItem s ''lastPaymentReference'',
                          status = ''completed'', closedManually = Some True, data = None\<rparr>)]
          \<and> getItem s' ''lastPaymentReference'' = None"
    if "truthy (getItem s ''lastPaymentReference'')"
    using that by (simp add: f manualCloseOutcome_def getItem_def cleared)
  have 3: "snd (last (settlements s')) = Rejected (Error userClosedMsg)
            \<longleftrightarrow> \<not> truthy (getItem s ''lastPaymentReference'')"
    by (simp add: log manualCloseOutcome_def)
  have 4: "settlementOf s (cPromise c) = None \<longrightarrow>
            settlementOf s' (cPromise c) = Some (snd (last (settlements s')))"
    using settlementOf_first_call [OF log] by (simp add: log)
  have 5: "\<not> mapHas (activePaymentWindows s') (cPaymentId c)" by (simp add: f)
  have 6: "c \<notin> set (pollers s')" by (simp add: f)
  from 1 2 3 4 5 6 show ?thesis by blast
qed

theorem manual_close_outcome_witness:
  "session1 \<in> set (pollers (windowClose 7 onePending))
   \<and> cPopup session1 \<in> closedWindows (windowClose 7 onePending)
   \<and> mapHas (activePaymentWindows (windowClose 7 onePending)) (cPaymentId session1)
   \<and> \<not> truthy (getItem (windowClose 7 onePending) ''lastPaymentReference'')
   \<and> truthy (getItem (setItem ''lastPaymentReference'' ''R9'' (windowClose 7 onePending))
               ''lastPaymentReference'')
   \<and> settlements (step quiet (Tick session1) (windowClose 7 onePending))
       = [(0, Rejected (Error userClosedMsg))]
   \<and> settlements (step quiet (Tick session1)
        (setItem ''lastPaymentReference'' ''R9'' (windowClose 7 onePending)))
       = [(0, Resolved \<lparr>success = True, reference = Some ''R9'', status = ''completed'',
                        closedManually = Some True, data = None\<rparr>)]
   \<and> getItem (step quiet (Tick session1)
        (setItem ''lastPaymentReference'' ''R9'' (windowClose 7 onePending)))
        ''lastPaymentReference'' = None"
proof -
  let ?a = "windowClose 7 onePending"
  let ?b = "setItem ''lastPaymentReference'' ''R9'' (windowClose 7 onePending)"
  have a: "session1 \<in> set (pollers ?a)" "cPopup session1 \<in> closedWindows ?a"
    "mapHas (activePaymentWindows ?a) (cPaymentId session1)"
    "\<not> truthy (getItem ?a ''lastPaymentReference'')" "settlements ?a = []"
    by (simp_all add: windowClose_def onePending_eq newSdk_def session1_def mapHas_def getItem_def)
  have b: "session1 \<in> set (pollers ?b)" "cPopup session1 \<in> closedWindows ?b"
    "mapHas (activePaymentWindows ?b) (cPaymentId session1)"
    "truthy (getItem ?b ''lastPaymentReference'')" "settlements ?b = []"
    "getItem ?b ''lastPaymentReference'' = Some ''R9''"
    by (simp_all add: windowClose_def setItem_def onePending_eq newSdk_def session1_def
          mapHas_def getItem_def)
  have p: "cPromise session1 = 0" by (simp add: session1_def)
  from manual_close_outcome [OF a(1,2,3) refl, of quiet]
       manual_close_outcome [OF b(1,2,3) refl, of quiet] a b p
  show ?thesis by simp
qed

subsection \<open>C9: publishing an event\<close>

text \<open>
  C9. Publishing an event always returns, whatever the subscribers do. It calls the
  subscribers registered for that event type, each once, in registration order, with
  the data, also those that come after a subscriber that threw; what a subscriber throws
  is written to the console and goes nowhere else: everything but the log of calls and
  the console, the settlements of the promises among it, is as before. When every
  subscription holds a function, as \<^verbatim>\<open>on\<close> ensures, the functions called are exactly
  the callbacks of the subscriptions of that type.
\<close>

theorem emitEvent_isolates_failures:
  "emitEvent beh ev d s =
     Returned (s\<lparr>invoked := invoked s @ map (\<lambda>f. (f, d)) (calledFunctions (subscribersOf ev s)),
                 console := console s @ loggedErrors beh d (subscribersOf ev s)\<rparr>)
   \<and> settlements (stateOf (emitEvent beh ev d s)) = settlements s
   \<and> ((\<forall>l \<in> set (eventListeners s). isFunction (callback l)) \<longrightarrow>
        map JFunction (calledFunctions (subscribersOf ev s)) = map callback (subscribersOf ev s))"
proof -
  have "map JFunction (calledFunctions ls) = map callback ls"
    if "\<forall>l \<in> set ls. isFunction (callback l)" for ls
    using that
  proof (induction ls)
    case Nil
    show ?case by simp
  next
    case (Cons l ls)
    then show ?case by (cases "callback l") simp_all
  qed
  then have "map JFunction (calledFunctions (subscribersOf ev s)) = map callback (subscribersOf ev s)"
    if "\<forall>l \<in> set (eventListeners s). isFunction (callback l)"
    using that by (simp add: subscribersOf_def)
  then show ?thesis by (simp add: emitEvent_returns afterEmit_def)
qed

theorem emitEvent_isolates_failures_witness:
  "map (\<lambda>l. isFunction (callback l)) (eventListeners dupSubs) = [True, True, True]
   \<and> invoked (stateOf (emitEvent firstThrows ''success'' (Obj (Some ''R123'') None) dupSubs))
       = [(1, Obj (Some ''R123'') None), (2, Obj (Some ''R123'') None), (1, Obj (Some ''R123'') None)]
   \<and> console (stateOf (emitEvent firstThrows ''success'' (Obj (Some ''R123'') None) dupSubs))
       = [Error ''boom'', Error ''boom'']
   \<and> map JFunction (calledFunctions (subscribersOf ''success'' dupSubs))
       = [JFunction 1, JFunction 2, JFunction 1]"
  using emitEvent_isolates_failures [of firstThrows "''success''" "Obj (Some ''R123'') None" dupSubs]
  by (simp add: dupSubs_eq newSdk_def subscribersOf_def firstThrows_def)

subsection \<open>C10: on\<close>

text \<open>
  C10. \<^verbatim>\<open>on(event, callback)\<close> throws when \<^verbatim>\<open>callback\<close> is not a function and then
  leaves the whole state, the subscriber list in it, as it was; when \<^verbatim>\<open>callback\<close> is a
  function it returns, and the subscriber list is the old one with the new pair appended
  at the end.
\<close>

theorem on_checks_callback:
  "(\<not> isFunction cb \<longrightarrow> on ev cb s = Threw (Error callbackMsg) s)
   \<and> (isFunction cb \<longrightarrow>
        (\<exists>s'. on ev cb s = Returned s'
           \<and> eventListeners s' = eventListeners s @ [\<lparr>event = ev, callback = cb\<rparr>]
           \<and> s' = s\<lparr>eventListeners := eventListeners s'\<rparr>))"
  by (simp add: on_def)

theorem on_checks_callback_witness:
  "\<not> isFunction (JString ''handler'') \<and> isFunction (JFunction 3)
   \<and> on ''success'' (JString ''handler'') dupSubs = Threw (Error callbackMsg) dupSubs
   \<and> eventListeners (stateOf (on ''error'' (JFunction 3) dupSubs))
       = eventListeners dupSubs @ [\<lparr>event = ''error'', callback = JFunction 3\<rparr>]"
  using on_checks_callback [of "JString ''handler''" "''success''" dupSubs]
        on_checks_callback [of "JFunction 3" "''error''" dupSubs]
  by auto

end
